theory Spec2Isabelle
  imports Complex_Main "HOL-Library.Char_ord" "HOL-Library.List_Lexorder"
    "HOL-Library.Product_Lexorder" "HOL-Library.Log_Nat" "HOL-Library.Multiset"
begin

section \<open>GeneWalk statistics: \<open>genewalk/perform_statistics.py\<close>\<close>

text \<open>
  The development embeds the class \<open>GeneWalk\<close> of \<open>perform_statistics.py\<close>: the
  methods \<open>P_sim\<close>, \<open>get_GO_df\<close> and the human-gene branch of \<open>generate_output\<close>
  (\<open>self.mouse_genes\<close> false). Floating-point numbers are idealised as reals, Python
  exceptions are values of a sum type, and data frames are lists of records in row order.
  The attributes \<open>hgncid\<close>, \<open>Nreps\<close> and the per-replicate node vectors, which the
  constructor of the source leaves unset, are parameters of the model: \<open>hgncid\<close> is the
  list of genes of interest, the list of node vectors has one entry for every replicate
  (read from the pickle files in the source), and \<open>Nreps\<close> is its length. The result of
  \<open>generate_output\<close> is the table it returns; writing it to a file is not modelled.
\<close>

subsection \<open>Exceptions\<close>

datatype error = KeyError | ZeroDivisionError

subsection \<open>The null distribution and \<open>P_sim\<close>\<close>

text \<open>
  The keys of \<open>self.srd\<close> are the strings \<open>'d' + str(np.floor(np.log2(N_con)))\<close>:
  \<open>'d0.0'\<close>, \<open>'d1.0'\<close>, ... for a positive \<open>N_con\<close>, and \<open>'d-inf'\<close> for \<open>N_con = 0\<close>
  (\<open>np.log2(0)\<close> is \<open>-inf\<close> with a warning, not an exception). \<open>Bucket k\<close> stands for
  the string \<open>'dk.0'\<close> and \<open>NegInf\<close> for \<open>'d-inf'\<close>.
\<close>

datatype dist_key = Bucket nat | NegInf

fun floor_log2 :: "nat \<Rightarrow> nat" where
  "floor_log2 n = (if n < 2 then 0 else Suc (floor_log2 (n div 2)))"

definition dist_key_of :: "nat \<Rightarrow> dist_key" where
  "dist_key_of N_con = (if N_con = 0 then NegInf else Bucket (floor_log2 N_con))"

type_synonym null_dist = "dist_key \<rightharpoonup> real list"

text \<open>
  Modelled from the spec: \<open>numpy.searchsorted(a, v, side='left')\<close>, the
  "left-inserting sorted search" of the spec, is library code outside the repository. It is
  the binary search below: the interval \<open>[min_idx, max_idx)\<close> is halved, going right
  when the middle element is less than the key.
\<close>

function binsearch_left :: "real list \<Rightarrow> real \<Rightarrow> nat \<Rightarrow> nat \<Rightarrow> nat" where
  "binsearch_left arr key_val min_idx max_idx =
     (if min_idx < max_idx then
        (let mid_idx = min_idx + (max_idx - min_idx) div 2 in
         if arr ! mid_idx < key_val
         then binsearch_left arr key_val (mid_idx + 1) max_idx
         else binsearch_left arr key_val min_idx mid_idx)
      else min_idx)"
  by pat_completeness auto
termination
  by (relation "measure (\<lambda>(arr, key_val, min_idx, max_idx). max_idx - min_idx)") auto

declare binsearch_left.simps [simp del]

definition searchsorted :: "real list \<Rightarrow> real \<Rightarrow> nat" where
  "searchsorted a v = binsearch_left a v 0 (length a)"

text \<open>
  \<open>P_sim\<close>: the lookup \<open>self.srd[dist_key]\<close> raises \<open>KeyError\<close> for a missing key, and
  \<open>float(RANK)/len(...)\<close> raises \<open>ZeroDivisionError\<close> for an empty sample.
\<close>

definition P_sim :: "null_dist \<Rightarrow> real \<Rightarrow> nat \<Rightarrow> error + real" where
  "P_sim srd sim N_con =
     (case srd (dist_key_of N_con) of
        None \<Rightarrow> Inl KeyError
      | Some sample \<Rightarrow>
          (let RANK = searchsorted sample sim in
           if length sample = 0 then Inl ZeroDivisionError
           else (let PCT_RANK = real RANK / real (length sample) in Inr (1 - PCT_RANK))))"

subsection \<open>Benjamini-Hochberg adjustment\<close>

text \<open>
  Modelled from the spec: \<open>statsmodels.stats.multitest.fdrcorrection(pvals, alpha,
  method='indep')\<close> is library code outside the repository; only its second result, the
  adjusted p-values, is used by \<open>get_GO_df\<close>. Following section 4.4 of the spec and the
  library: sort the p-values ascending (\<open>argsort\<close>), divide the value of rank \<open>i\<close> by
  \<open>i / m\<close> (that is \<open>q = p * m / i\<close>, \<open>m\<close> the number of p-values), take the running
  minimum from the largest rank down (\<open>np.minimum.accumulate\<close> on the reversed array),
  clip at 1 and put every value back at the position of its p-value. Ties get the same
  adjusted value whichever way the sort orders them, so the stable \<open>sort_key\<close> stands for
  \<open>np.argsort\<close>.
\<close>

definition argsort :: "real list \<Rightarrow> nat list" where
  "argsort ps = map snd (sort_key fst (zip ps [0..<length ps]))"

definition ecdf :: "nat \<Rightarrow> real list" where
  "ecdf nobs = map (\<lambda>i. real (i + 1) / real nobs) [0..<nobs]"

fun min_acc :: "real \<Rightarrow> real list \<Rightarrow> real list" where
  "min_acc m [] = []"
| "min_acc m (x # xs) = min m x # min_acc (min m x) xs"

definition minimum_accumulate :: "real list \<Rightarrow> real list" where
  "minimum_accumulate xs = (case xs of [] \<Rightarrow> [] | x # xs' \<Rightarrow> x # min_acc x xs')"

definition scatter :: "nat list \<Rightarrow> real list \<Rightarrow> real list" where
  "scatter idx vals =
     fold (\<lambda>(i, v) out. out[i := v]) (zip idx vals) (replicate (length vals) 0)"

definition fdrcorrection :: "real list \<Rightarrow> real list" where
  "fdrcorrection pvals =
     (let pvals_sortind = argsort pvals;
          pvals_sorted = map (\<lambda>i. pvals ! i) pvals_sortind;
          ecdffactor = ecdf (length pvals);
          pvals_corrected_raw = map (\<lambda>(p, e). p / e) (zip pvals_sorted ecdffactor);
          pvals_corrected = rev (minimum_accumulate (rev pvals_corrected_raw));
          pvals_clipped = map (\<lambda>q. if q > 1 then 1 else q) pvals_corrected
      in scatter pvals_sortind pvals_clipped)"

subsection \<open>The network, the node vectors and \<open>get_GO_df\<close>\<close>

text \<open>
  The networkx graph: \<open>nodes\<close> is \<open>nx.nodes(graph)\<close> in iteration order, \<open>node g n\<close> the
  attribute dictionary \<open>graph.node[n]\<close>, and \<open>adj g n\<close> the adjacency view \<open>graph[n]\<close>,
  whose length is the number of distinct neighbours (\<open>None\<close> where indexing the graph
  raises \<open>KeyError\<close>). The node vectors of a replicate are given by the ranking
  \<open>nv.most_similar(w, topn=len(nv.vocab))\<close> of every word of the vocabulary, most similar
  first; a word outside the vocabulary raises \<open>KeyError\<close>.
\<close>

record graph =
  nodes :: "string list"
  node :: "string \<Rightarrow> string \<rightharpoonup> string"
  adj :: "string \<rightharpoonup> string list"

type_synonym node_vectors = "string \<rightharpoonup> (string \<times> real) list"

definition GO_nodes :: "graph \<Rightarrow> string set" where
  "GO_nodes g = {n \<in> set (nodes g). node g n ''GO'' \<noteq> None}"

record GOdf_row =
  GO_description :: string
  GO_ID :: string
  N_con_GO :: nat
  similarity :: real
  pval :: real
  padj :: real

text \<open>
  The loop of \<open>get_GO_df\<close> over the rows of \<open>simdf\<close>: it appends to \<open>N_GO_CON\<close>, \<open>DES\<close>
  and \<open>PVAL\<close> in step; the first exception leaves the method.
\<close>

fun candidate_loop ::
  "graph \<Rightarrow> null_dist \<Rightarrow> nat \<Rightarrow> (string \<times> real) list \<Rightarrow> error + (nat \<times> string \<times> real) list" where
  "candidate_loop g srd N_gene_con [] = Inr []"
| "candidate_loop g srd N_gene_con ((go, sim) # rest) =
     (case adj g go of
        None \<Rightarrow> Inl KeyError
      | Some nb \<Rightarrow>
          (let N_GO_con = length nb in
           case node g go ''name'' of
             None \<Rightarrow> Inl KeyError
           | Some des \<Rightarrow>
               (case P_sim srd sim (min N_GO_con N_gene_con) of
                  Inl e \<Rightarrow> Inl e
                | Inr p \<Rightarrow>
                    (case candidate_loop g srd N_gene_con rest of
                       Inl e \<Rightarrow> Inl e
                     | Inr cols \<Rightarrow> Inr ((N_GO_con, des, p) # cols)))))"

definition make_row :: "(string \<times> real) \<times> (nat \<times> string \<times> real) \<times> real \<Rightarrow> GOdf_row" where
  "make_row = (\<lambda>((go, sim), (N_GO_con, des, p), q).
     \<lparr>GO_description = des, GO_ID = go, N_con_GO = N_GO_con, similarity = sim,
      pval = p, padj = q\<rparr>)"

definition get_GO_df ::
  "graph \<Rightarrow> node_vectors \<Rightarrow> null_dist \<Rightarrow> string \<Rightarrow> nat \<Rightarrow> real \<Rightarrow> error + GOdf_row list" where
  "get_GO_df g nv srd geneoi N_gene_con alpha_FDR =
     (case adj g geneoi of
        None \<Rightarrow> Inl KeyError
      | Some nb \<Rightarrow>
          (let GO_con2gene = set nb \<inter> GO_nodes g in
           case nv geneoi of
             None \<Rightarrow> Inl KeyError
           | Some ranking \<Rightarrow>
               (let simdf = filter (\<lambda>(go, sim). go \<in> GO_con2gene) ranking in
                case candidate_loop g srd N_gene_con simdf of
                  Inl e \<Rightarrow> Inl e
                | Inr cols \<Rightarrow>
                    (let q_val = fdrcorrection (map (\<lambda>(N_GO_con, des, p). p) cols);
                         simdf' = map make_row (zip simdf (zip cols q_val))
                     in if alpha_FDR < 1
                        then Inr (filter (\<lambda>r. padj r < alpha_FDR) simdf')
                        else Inr simdf'))))"

subsection \<open>\<open>generate_output\<close>, human genes\<close>

text \<open>
  A row of a replicate's table \<open>self.outdfs[rep]\<close>: the row of \<open>get_GO_df\<close> with the
  inserted columns \<open>HGNC\<close>, \<open>Symbol\<close> and \<open>N_con(gene)\<close>.
\<close>

record rep_row =
  HGNC :: string
  Symbol :: string
  N_con_gene :: nat
  GOdf :: GOdf_row

text \<open>The body of the \<open>try\<close> statement for one node of the graph.\<close>

definition node_rows ::
  "graph \<Rightarrow> string list \<Rightarrow> node_vectors \<Rightarrow> null_dist \<Rightarrow> real \<Rightarrow> string \<Rightarrow> error + rep_row list" where
  "node_rows g hgncid nv srd alpha_FDR n =
     (case node g n ''HGNC'' of
        None \<Rightarrow> Inl KeyError
      | Some h \<Rightarrow>
          if h \<in> set hgncid then
            (case adj g n of
               None \<Rightarrow> Inl KeyError
             | Some nb \<Rightarrow>
                 (let N_gene_con = length nb in
                  case get_GO_df g nv srd n N_gene_con alpha_FDR of
                    Inl e \<Rightarrow> Inl e
                  | Inr GOdf_rows \<Rightarrow>
                      Inr (map (\<lambda>r. \<lparr>HGNC = h, Symbol = n, N_con_gene = N_gene_con, GOdf = r\<rparr>)
                             GOdf_rows)))
          else Inr [])"

text \<open>
  The loop \<open>for n in g_view\<close>: \<open>except KeyError: pass\<close> goes on with the next node, any
  other exception leaves \<open>generate_output\<close>.
\<close>

fun node_loop ::
  "graph \<Rightarrow> string list \<Rightarrow> node_vectors \<Rightarrow> null_dist \<Rightarrow> real \<Rightarrow> string list \<Rightarrow> error + rep_row list" where
  "node_loop g hgncid nv srd alpha_FDR [] = Inr []"
| "node_loop g hgncid nv srd alpha_FDR (n # ns) =
     (case node_rows g hgncid nv srd alpha_FDR n of
        Inl KeyError \<Rightarrow> node_loop g hgncid nv srd alpha_FDR ns
      | Inl e \<Rightarrow> Inl e
      | Inr rows \<Rightarrow>
          (case node_loop g hgncid nv srd alpha_FDR ns of
             Inl e \<Rightarrow> Inl e
           | Inr rest \<Rightarrow> Inr (rows @ rest)))"

text \<open>
  The categorical column \<open>HGNC\<close> has the categories \<open>pd.Series(self.hgncid).unique()\<close>,
  the identifiers in the order of their first occurrence; a categorical column sorts by
  the position of the category, a value outside the categories is missing and sorts last.
\<close>

fun unique :: "'a list \<Rightarrow> 'a list" where
  "unique [] = []"
| "unique (x # xs) = x # unique (removeAll x xs)"

fun find_index_of :: "'a \<Rightarrow> 'a list \<Rightarrow> nat" where
  "find_index_of x [] = 0"
| "find_index_of x (y # ys) = (if x = y then 0 else Suc (find_index_of x ys))"

definition cat_code :: "string list \<Rightarrow> string \<Rightarrow> nat" where
  "cat_code hgncid h = find_index_of h (unique hgncid)"

definition rep_sort_key :: "string list \<Rightarrow> rep_row \<Rightarrow> nat \<times> string \<times> string" where
  "rep_sort_key hgncid r = (cat_code hgncid (HGNC r), Symbol r, GO_ID (GOdf r))"

definition replicate_table ::
  "graph \<Rightarrow> string list \<Rightarrow> node_vectors \<Rightarrow> null_dist \<Rightarrow> real \<Rightarrow> error + rep_row list" where
  "replicate_table g hgncid nv srd alpha_FDR =
     (case node_loop g hgncid nv srd alpha_FDR (nodes g) of
        Inl e \<Rightarrow> Inl e
      | Inr rows \<Rightarrow> Inr (sort_key (rep_sort_key hgncid) rows))"

fun all_replicates ::
  "graph \<Rightarrow> string list \<Rightarrow> node_vectors list \<Rightarrow> null_dist \<Rightarrow> real \<Rightarrow> error + rep_row list list" where
  "all_replicates g hgncid [] srd alpha_FDR = Inr []"
| "all_replicates g hgncid (nv # nvs) srd alpha_FDR =
     (case replicate_table g hgncid nv srd alpha_FDR of
        Inl e \<Rightarrow> Inl e
      | Inr t \<Rightarrow>
          (case all_replicates g hgncid nvs srd alpha_FDR of
             Inl e \<Rightarrow> Inl e
           | Inr ts \<Rightarrow> Inr (t # ts)))"

text \<open>
  The merged table \<open>self.outdfs[self.Nreps+1]\<close>. A row has the identity columns
  \<open>COLUMNS\<close> and, for every replicate merged so far, the columns \<open>r:similarity\<close>, \<open>r:pval\<close>
  and \<open>r:padj\<close>, which an outer merge fills together or leaves missing together (\<open>None\<close>
  for the three \<open>NaN\<close>). The order in which pandas puts the rows of an outer merge is not
  modelled: the final \<open>sort_values\<close> fixes the order of the output up to rows with equal
  sort keys.
\<close>

type_synonym ident = "string \<times> string \<times> string \<times> string \<times> nat \<times> nat"

definition ident_of :: "rep_row \<Rightarrow> ident" where
  "ident_of r = (HGNC r, Symbol r, GO_description (GOdf r), GO_ID (GOdf r),
                 N_con_gene r, N_con_GO (GOdf r))"

definition values_of :: "rep_row \<Rightarrow> real \<times> real \<times> real" where
  "values_of r = (similarity (GOdf r), pval (GOdf r), padj (GOdf r))"

record merged_row =
  ident :: ident
  reps :: "(real \<times> real \<times> real) option list"

definition merge_outer :: "nat \<Rightarrow> merged_row list \<Rightarrow> rep_row list \<Rightarrow> merged_row list" where
  "merge_outer k left right =
     concat (map (\<lambda>l.
        (case filter (\<lambda>r. ident_of r = ident l) right of
           [] \<Rightarrow> [l\<lparr>reps := reps l @ [None]\<rparr>]
         | ms \<Rightarrow> map (\<lambda>r. l\<lparr>reps := reps l @ [Some (values_of r)]\<rparr>) ms)) left)
     @ map (\<lambda>r. \<lparr>ident = ident_of r, reps = replicate k None @ [Some (values_of r)]\<rparr>)
         (filter (\<lambda>r. ident_of r \<notin> ident ` set left) right)"

fun merge_all :: "nat \<Rightarrow> merged_row list \<Rightarrow> rep_row list list \<Rightarrow> merged_row list" where
  "merge_all k merged [] = merged"
| "merge_all k merged (t # ts) = merge_all (Suc k) (merge_outer k merged t) ts"

text \<open>
  \<open>DataFrame.mean(axis=1)\<close> and \<open>DataFrame.std(axis=1)\<close> skip missing values: the mean is
  over the values present (missing when there is none), the standard deviation is the
  sample standard deviation (\<open>ddof=1\<close>) of the values present, missing when fewer than two
  are.
\<close>

fun present :: "'a option list \<Rightarrow> 'a list" where
  "present [] = []"
| "present (None # xs) = present xs"
| "present (Some x # xs) = x # present xs"

definition mean_skipna :: "real option list \<Rightarrow> real option" where
  "mean_skipna xs =
     (let ys = present xs in
      if ys = [] then None else Some (sum_list ys / real (length ys)))"

definition std_skipna :: "real option list \<Rightarrow> real option" where
  "std_skipna xs =
     (let ys = present xs; n = length ys in
      if n < 2 then None
      else (let m = sum_list ys / real n in
            Some (sqrt (sum_list (map (\<lambda>y. (y - m)\<^sup>2) ys) / real (n - 1)))))"

definition sem :: "nat \<Rightarrow> real option list \<Rightarrow> real option" where
  "sem Nreps xs = map_option (\<lambda>s. s / sqrt (real Nreps)) (std_skipna xs)"

record out_row =
  out_ident :: ident
  mean_sim :: "real option"
  sem_sim :: "real option"
  mean_pval :: "real option"
  sem_pval :: "real option"
  mean_padj :: "real option"
  sem_padj :: "real option"

definition sim_columns :: "merged_row \<Rightarrow> real option list" where
  "sim_columns m = map (map_option (\<lambda>(s, p, q). s)) (reps m)"

definition pval_columns :: "merged_row \<Rightarrow> real option list" where
  "pval_columns m = map (map_option (\<lambda>(s, p, q). p)) (reps m)"

definition padj_columns :: "merged_row \<Rightarrow> real option list" where
  "padj_columns m = map (map_option (\<lambda>(s, p, q). q)) (reps m)"

definition statistics :: "nat \<Rightarrow> merged_row \<Rightarrow> out_row" where
  "statistics Nreps m =
     \<lparr>out_ident = ident m,
      mean_sim = mean_skipna (sim_columns m), sem_sim = sem Nreps (sim_columns m),
      mean_pval = mean_skipna (pval_columns m), sem_pval = sem Nreps (pval_columns m),
      mean_padj = mean_skipna (padj_columns m), sem_padj = sem Nreps (padj_columns m)\<rparr>"

text \<open>
  The final \<open>sort_values(by=['HGNC','mean:padj','GO description'])\<close>, a stable sort
  with missing values last.
\<close>

definition na_last :: "real option \<Rightarrow> nat \<times> real" where
  "na_last x = (case x of None \<Rightarrow> (1, 0) | Some v \<Rightarrow> (0, v))"

definition out_HGNC :: "out_row \<Rightarrow> string" where
  "out_HGNC r = fst (out_ident r)"

definition out_GO_description :: "out_row \<Rightarrow> string" where
  "out_GO_description r = fst (snd (snd (out_ident r)))"

definition final_sort_key :: "string list \<Rightarrow> out_row \<Rightarrow> nat \<times> (nat \<times> real) \<times> string" where
  "final_sort_key hgncid r =
     (cat_code hgncid (out_HGNC r), na_last (mean_padj r), out_GO_description r)"

definition merged_table ::
  "graph \<Rightarrow> string list \<Rightarrow> node_vectors list \<Rightarrow> null_dist \<Rightarrow> real \<Rightarrow> error + merged_row list" where
  "merged_table g hgncid nvs srd alpha_FDR =
     (case all_replicates g hgncid nvs srd alpha_FDR of
        Inl e \<Rightarrow> Inl e
      | Inr [] \<Rightarrow> Inl KeyError
      | Inr (t # ts) \<Rightarrow>
          Inr (merge_all 1 (map (\<lambda>r. \<lparr>ident = ident_of r, reps = [Some (values_of r)]\<rparr>) t) ts))"

definition generate_output ::
  "graph \<Rightarrow> string list \<Rightarrow> node_vectors list \<Rightarrow> null_dist \<Rightarrow> real \<Rightarrow> error + out_row list" where
  "generate_output g hgncid nvs srd alpha_FDR =
     (let Nreps = length nvs in
      case merged_table g hgncid nvs srd alpha_FDR of
        Inl e \<Rightarrow> Inl e
      | Inr merged \<Rightarrow>
          Inr (sort_key (final_sort_key hgncid) (map (statistics Nreps) merged)))"

subsection \<open>What the merged table records\<close>

text \<open>
  The relation between a row of the merged table and the replicates' tables, for the
  statements about pairs present in some replicates only: the row has one entry for every
  replicate and at least one of them present; a present entry holds the values of a row of
  that replicate's table with the same identity columns, and a missing entry says that
  the replicate's table has no row with these identity columns. \<open>merge_complete\<close>: every
  row of every replicate's table is in the merged table.
\<close>

definition row_agrees :: "rep_row list list \<Rightarrow> merged_row \<Rightarrow> bool" where
  "row_agrees tables m \<longleftrightarrow>
     length (reps m) = length tables \<and> present (reps m) \<noteq> [] \<and>
     (\<forall>i<length tables. \<forall>v. reps m ! i = Some v \<longrightarrow>
        (\<exists>r\<in>set (tables ! i). ident_of r = ident m \<and> values_of r = v)) \<and>
     (\<forall>i<length tables. reps m ! i = None \<longrightarrow> ident m \<notin> ident_of ` set (tables ! i))"

definition merge_complete :: "rep_row list list \<Rightarrow> merged_row list \<Rightarrow> bool" where
  "merge_complete tables merged \<longleftrightarrow>
     (\<forall>i<length tables. \<forall>r\<in>set (tables ! i).
        \<exists>m\<in>set merged. ident m = ident_of r \<and> reps m ! i = Some (values_of r))"

subsection \<open>Example inputs\<close>

text \<open>
  A network of two genes and two GO terms, a null distribution with the two buckets the
  network reaches, and node vectors of replicates; the closed theorems below evaluate the
  model on them.
\<close>

definition g0 :: graph where
  "g0 = \<lparr>nodes = [''G1'', ''G2'', ''G3'', ''GO:1'', ''GO:2''],
         node = (\<lambda>n. Map.empty)
           (''G1'' := [''HGNC'' \<mapsto> ''H1''],
            ''G2'' := [''HGNC'' \<mapsto> ''H2''],
            ''G3'' := [''HGNC'' \<mapsto> ''H3''],
            ''GO:1'' := [''GO'' \<mapsto> ''GO:1'', ''name'' \<mapsto> ''alpha''],
            ''GO:2'' := [''GO'' \<mapsto> ''GO:2'', ''name'' \<mapsto> ''beta'']),
         adj = [''G1'' \<mapsto> [''GO:1'', ''GO:2''], ''G2'' \<mapsto> [''GO:1'', ''G3''],
                ''G3'' \<mapsto> [''G2''],
                ''GO:1'' \<mapsto> [''G1'', ''G2''], ''GO:2'' \<mapsto> [''G1'']]\<rparr>"

definition srd0 :: null_dist where
  "srd0 = [Bucket 0 \<mapsto> [0, 1/2], Bucket 1 \<mapsto> [0, 1/4, 1/2, 3/4]]"

text \<open>
  The node vectors \<open>nv_of a b c\<close> give the similarity \<open>a\<close> to the pair \<open>G1\<close>, \<open>GO:1\<close>,
  \<open>b\<close> to \<open>G1\<close>, \<open>GO:2\<close> and \<open>c\<close> to \<open>G2\<close>, \<open>GO:1\<close>.
\<close>

definition nv_of :: "real \<Rightarrow> real \<Rightarrow> real \<Rightarrow> node_vectors" where
  "nv_of a b c =
     [''G1'' \<mapsto> [(''GO:1'', a), (''G2'', 1/2), (''GO:2'', b), (''G3'', 1/10)],
      ''G2'' \<mapsto> [(''G3'', 7/10), (''GO:1'', c), (''G1'', 1/2), (''GO:2'', 1/10)],
      ''G3'' \<mapsto> [(''G2'', 7/10), (''GO:1'', 1/5), (''G1'', 1/10), (''GO:2'', 0)],
      ''GO:1'' \<mapsto> [(''G1'', a), (''G2'', c), (''G3'', 1/5), (''GO:2'', 0)],
      ''GO:2'' \<mapsto> [(''G1'', b), (''G2'', 1/10), (''G3'', 0), (''GO:1'', 0)]]"

definition nv0 :: node_vectors where
  "nv0 = nv_of (3/5) (3/10) (3/5)"

definition nv1 :: node_vectors where
  "nv1 = nv_of (9/10) (3/10) (3/5)"

section \<open>Properties\<close>

lemmas eval_defs = get_GO_df_def GO_nodes_def P_sim_def dist_key_of_def searchsorted_def
  binsearch_left.simps fdrcorrection_def argsort_def ecdf_def minimum_accumulate_def scatter_def
  make_row_def Let_def node_rows_def replicate_table_def rep_sort_key_def cat_code_def
  merged_table_def generate_output_def ident_of_def values_of_def merge_outer_def
  statistics_def sim_columns_def pval_columns_def padj_columns_def mean_skipna_def
  std_skipna_def sem_def final_sort_key_def na_last_def
  out_HGNC_def out_GO_description_def

lemmas example_defs = g0_def srd0_def nv_of_def nv0_def nv1_def

subsection \<open>Properties of the sorted search\<close>

lemma floor_log2_eq_floor_log:
  "0 < n \<Longrightarrow> int (floor_log2 n) = \<lfloor>log 2 (real n)\<rfloor>"
proof (induction n rule: floor_log2.induct)
  case (1 n)
  show ?case
  proof (cases "n < 2")
    case True
    with "1.prems" have "n = 1" by simp
    then show ?thesis by simp
  next
    case False
    then have pos: "0 < n div 2" by simp
    have "\<lfloor>log 2 (real n)\<rfloor> = \<lfloor>log 2 (real (n div 2))\<rfloor> + 1"
      using floor_log_div [of 2 n] False by simp
    with "1.IH" [OF False pos] False show ?thesis
      by (subst floor_log2.simps) simp
  qed
qed

lemma binsearch_left_bounds:
  "min_idx \<le> max_idx \<Longrightarrow>
   min_idx \<le> binsearch_left arr k min_idx max_idx \<and> binsearch_left arr k min_idx max_idx \<le> max_idx"
proof (induction arr k min_idx max_idx rule: binsearch_left.induct)
  case (1 arr k lo hi)
  show ?case
  proof (cases "lo < hi")
    case False
    with "1.prems" show ?thesis by (simp add: binsearch_left.simps)
  next
    case True
    define mid where "mid = lo + (hi - lo) div 2"
    have mid: "lo \<le> mid" "mid < hi" using True by (auto simp: mid_def)
    show ?thesis
    proof (cases "arr ! mid < k")
      case lt: True
      have "mid + 1 \<le> hi" using mid by simp
      from "1.IH"(1) [OF True mid_def lt this] mid True lt show ?thesis
        by (subst (1 2) binsearch_left.simps) (simp add: mid_def Let_def)
    next
      case ge: False
      have "lo \<le> mid" using mid by simp
      from "1.IH"(2) [OF True mid_def ge this] mid True ge show ?thesis
        by (subst (1 2) binsearch_left.simps) (simp add: mid_def Let_def)
    qed
  qed
qed

lemma binsearch_left_partition:
  assumes "sorted arr" "min_idx \<le> max_idx" "max_idx \<le> length arr"
    and "\<forall>i<min_idx. arr ! i < k"
    and "\<forall>i. max_idx \<le> i \<and> i < length arr \<longrightarrow> k \<le> arr ! i"
  shows "(\<forall>i<binsearch_left arr k min_idx max_idx. arr ! i < k) \<and>
         (\<forall>i. binsearch_left arr k min_idx max_idx \<le> i \<and> i < length arr \<longrightarrow> k \<le> arr ! i)"
  using assms
proof (induction arr k min_idx max_idx rule: binsearch_left.induct)
  case (1 arr k lo hi)
  show ?case
  proof (cases "lo < hi")
    case False
    with "1.prems" have "lo = hi" by simp
    with "1.prems" show ?thesis by (simp add: binsearch_left.simps)
  next
    case True
    define mid where "mid = lo + (hi - lo) div 2"
    have mid: "lo \<le> mid" "mid < hi" using True by (auto simp: mid_def)
    with "1.prems" have midlen: "mid < length arr" by simp
    show ?thesis
    proof (cases "arr ! mid < k")
      case lt: True
      have below: "\<forall>i<mid + 1. arr ! i < k"
      proof (intro allI impI)
        fix i assume "i < mid + 1"
        then have "i \<le> mid" by simp
        with \<open>sorted arr\<close> midlen have "arr ! i \<le> arr ! mid"
          by (simp add: sorted_iff_nth_mono)
        with lt show "arr ! i < k" by simp
      qed
      have eq: "binsearch_left arr k lo hi = binsearch_left arr k (mid + 1) hi"
        using True lt by (subst binsearch_left.simps) (simp add: mid_def Let_def)
      from "1.IH"(1) [OF True mid_def lt "1.prems"(1) _ "1.prems"(3) below "1.prems"(5)] mid
      show ?thesis unfolding eq by simp
    next
      case ge: False
      have above: "\<forall>i. mid \<le> i \<and> i < length arr \<longrightarrow> k \<le> arr ! i"
      proof (intro allI impI)
        fix i assume "mid \<le> i \<and> i < length arr"
        with \<open>sorted arr\<close> have "arr ! mid \<le> arr ! i"
          by (simp add: sorted_iff_nth_mono)
        with ge show "k \<le> arr ! i" by simp
      qed
      have eq: "binsearch_left arr k lo hi = binsearch_left arr k lo mid"
        using True ge by (subst binsearch_left.simps) (simp add: mid_def Let_def)
      from "1.IH"(2) [OF True mid_def ge "1.prems"(1) _ _ "1.prems"(4) above] mid midlen
      show ?thesis unfolding eq by simp
    qed
  qed
qed

lemma length_filter_prefix:
  assumes "r \<le> length xs" "\<forall>i<r. P (xs ! i)" "\<forall>i. r \<le> i \<and> i < length xs \<longrightarrow> \<not> P (xs ! i)"
  shows "length (filter P xs) = r"
proof -
  have "filter P (take r xs) = take r xs"
    using assms(1,2) by (auto simp: filter_id_conv in_set_conv_nth)
  moreover have "filter P (drop r xs) = []"
    using assms(3) by (auto simp: filter_empty_conv in_set_conv_nth)
  ultimately have "filter P (take r xs @ drop r xs) = take r xs"
    by (simp del: append_take_drop_id)
  then show ?thesis using assms(1) by simp
qed

lemma searchsorted_sorted:
  assumes "sorted a"
  shows "searchsorted a v = length (filter (\<lambda>x. x < v) a)"
proof -
  let ?r = "binsearch_left a v 0 (length a)"
  have part: "(\<forall>i<?r. a ! i < v) \<and> (\<forall>i. ?r \<le> i \<and> i < length a \<longrightarrow> v \<le> a ! i)"
    using binsearch_left_partition [of a 0 "length a" v] assms by simp
  have "?r \<le> length a"
    using binsearch_left_bounds [of 0 "length a" a v] by simp
  with part have "length (filter (\<lambda>x. x < v) a) = ?r"
    by (intro length_filter_prefix) (auto simp: not_less)
  then show ?thesis by (simp add: searchsorted_def)
qed

lemma searchsorted_le_length: "searchsorted a v \<le> length a"
  using binsearch_left_bounds [of 0 "length a" a v] by (simp add: searchsorted_def)

lemma searchsorted_insertion_point:
  assumes "sorted a"
  shows "(\<forall>i<searchsorted a v. a ! i < v) \<and>
         (\<forall>i. searchsorted a v \<le> i \<and> i < length a \<longrightarrow> v \<le> a ! i)"
  using binsearch_left_partition [of a 0 "length a" v] assms by (simp add: searchsorted_def)

lemma searchsorted_mono:
  assumes "sorted a" "s2 \<le> s1"
  shows "searchsorted a s2 \<le> searchsorted a s1"
proof -
  have "length (filter (\<lambda>x. x < s2) a) = length (filter (\<lambda>x. x < s2) (filter (\<lambda>x. x < s1) a))"
    using assms(2) by (auto intro!: arg_cong [where f = length] filter_cong)
  also have "\<dots> \<le> length (filter (\<lambda>x. x < s1) a)"
    by (rule length_filter_le)
  finally show ?thesis using assms(1) by (simp add: searchsorted_sorted)
qed

lemma P_sim_value:
  assumes "srd (dist_key_of N_con) = Some v" "v \<noteq> []"
  shows "P_sim srd s N_con = Inr (1 - real (searchsorted v s) / real (length v))"
  using assms by (simp add: P_sim_def Let_def)

lemma P_sim_range:
  assumes "P_sim srd s N_con = Inr p"
  shows "0 \<le> p \<and> p \<le> 1"
proof -
  from assms obtain v where v: "srd (dist_key_of N_con) = Some v" "v \<noteq> []"
    and p: "p = 1 - real (searchsorted v s) / real (length v)"
    by (auto simp: P_sim_def Let_def split: option.splits if_splits)
  have "real (searchsorted v s) / real (length v) \<le> 1"
    using searchsorted_le_length [of v s] v(2) by simp
  moreover have "0 \<le> real (searchsorted v s) / real (length v)" by simp
  ultimately show ?thesis using p by simp
qed

subsection \<open>Properties of the Benjamini-Hochberg adjustment\<close>

lemma argsort_mset: "mset (argsort ps) = mset (map snd (zip ps [0..<length ps]))"
  unfolding argsort_def by (simp only: mset_map mset_sort)

lemma argsort_length [simp]: "length (argsort ps) = length ps"
  by (simp add: argsort_def)

lemma argsort_set: "set (argsort ps) = {0..<length ps}"
  using mset_eq_setD [OF argsort_mset [of ps]] by (simp add: map_snd_zip)

lemma argsort_distinct: "distinct (argsort ps)"
  using mset_eq_imp_distinct_iff [OF argsort_mset [of ps]] by (simp add: map_snd_zip)

lemma argsort_sorted: "sorted (map (\<lambda>i. ps ! i) (argsort ps))"
proof -
  let ?S = "sort_key fst (zip ps [0..<length ps])"
  have "\<forall>z\<in>set ?S. ps ! snd z = fst z"
    by (auto simp: in_set_zip)
  then have "map (\<lambda>i. ps ! i) (map snd ?S) = map fst ?S"
    by simp
  then show ?thesis by (simp add: argsort_def del: map_map)
qed

lemma min_acc_length [simp]: "length (min_acc m xs) = length xs"
  by (induction xs arbitrary: m) simp_all

lemma minimum_accumulate_length [simp]: "length (minimum_accumulate xs) = length xs"
  by (simp add: minimum_accumulate_def split: list.splits)

lemma min_acc_lower:
  "L \<le> m \<Longrightarrow> i < length xs \<Longrightarrow> \<forall>j\<le>i. L \<le> xs ! j \<Longrightarrow> L \<le> min_acc m xs ! i"
proof (induction xs arbitrary: m i)
  case Nil
  then show ?case by simp
next
  case (Cons x xs)
  from Cons.prems(3) have x: "L \<le> x" by auto
  show ?case
  proof (cases i)
    case 0
    with Cons.prems(1) x show ?thesis by simp
  next
    case (Suc i')
    have "\<forall>j\<le>i'. L \<le> xs ! j" using Cons.prems(3) Suc by auto
    moreover have "L \<le> min m x" using Cons.prems(1) x by simp
    moreover have "i' < length xs" using Cons.prems(2) Suc by simp
    ultimately have "L \<le> min_acc (min m x) xs ! i'" by (intro Cons.IH)
    with Suc show ?thesis by simp
  qed
qed

lemma minimum_accumulate_lower:
  assumes "i < length xs" "\<forall>j\<le>i. L \<le> xs ! j"
  shows "L \<le> minimum_accumulate xs ! i"
proof (cases xs)
  case Nil
  with assms show ?thesis by simp
next
  case (Cons x xs')
  from assms(2) Cons have x: "L \<le> x" by auto
  show ?thesis
  proof (cases i)
    case 0
    with Cons x show ?thesis by (simp add: minimum_accumulate_def)
  next
    case (Suc i')
    have "\<forall>j\<le>i'. L \<le> xs' ! j" using assms(2) Suc Cons by auto
    moreover have "i' < length xs'" using assms(1) Suc Cons by simp
    ultimately have "L \<le> min_acc x xs' ! i'" using x by (intro min_acc_lower)
    with Suc Cons show ?thesis by (simp add: minimum_accumulate_def)
  qed
qed

lemma rev_minimum_accumulate_lower:
  assumes "k < length xs" "\<forall>j. k \<le> j \<and> j < length xs \<longrightarrow> L \<le> xs ! j"
  shows "L \<le> rev (minimum_accumulate (rev xs)) ! k"
proof -
  let ?n = "length xs"
  have "rev (minimum_accumulate (rev xs)) ! k = minimum_accumulate (rev xs) ! (?n - Suc k)"
    using assms(1) by (simp add: rev_nth)
  moreover have "L \<le> minimum_accumulate (rev xs) ! (?n - Suc k)"
  proof (rule minimum_accumulate_lower)
    show "?n - Suc k < length (rev xs)" using assms(1) by simp
    show "\<forall>j\<le>?n - Suc k. L \<le> rev xs ! j"
    proof (intro allI impI)
      fix j assume j: "j \<le> ?n - Suc k"
      then have "j < ?n" using assms(1) by simp
      then have "rev xs ! j = xs ! (?n - Suc j)" by (simp add: rev_nth)
      moreover have "k \<le> ?n - Suc j \<and> ?n - Suc j < ?n" using j assms(1) by auto
      ultimately show "L \<le> rev xs ! j" using assms(2) by simp
    qed
  qed
  ultimately show ?thesis by simp
qed

lemma fold_update_length [simp]:
  "length (fold (\<lambda>(i, v) out. out[i := v]) zs out) = length out"
  by (induction zs arbitrary: out) (auto)

lemma fold_update_other:
  "i \<notin> fst ` set zs \<Longrightarrow> fold (\<lambda>(i, v) out. out[i := v]) zs out ! i = out ! i"
  by (induction zs arbitrary: out) (auto)

lemma fold_update_nth:
  assumes "distinct (map fst zs)" "k < length zs" "fst (zs ! k) < length out"
  shows "fold (\<lambda>(i, v) out. out[i := v]) zs out ! (fst (zs ! k)) = snd (zs ! k)"
  using assms
proof (induction zs arbitrary: out k)
  case Nil
  then show ?case by simp
next
  case (Cons z zs)
  obtain a v where z: "z = (a, v)" by (cases z)
  show ?case
  proof (cases k)
    case 0
    have "a \<notin> fst ` set zs" using Cons.prems(1) z by simp
    then have "fold (\<lambda>(i, v) out. out[i := v]) zs (out[a := v]) ! a = out[a := v] ! a"
      by (rule fold_update_other)
    with 0 z Cons.prems(3) show ?thesis by simp
  next
    case (Suc k')
    have "fold (\<lambda>(i, v) out. out[i := v]) zs (out[a := v]) ! fst (zs ! k') = snd (zs ! k')"
      using Cons.prems Suc by (intro Cons.IH) auto
    with Suc z show ?thesis by simp
  qed
qed

lemma scatter_length [simp]: "length (scatter idx vals) = length vals"
  by (simp add: scatter_def)

lemma scatter_nth:
  assumes "distinct idx" "length idx = length vals" "k < length idx" "idx ! k < length vals"
  shows "scatter idx vals ! (idx ! k) = vals ! k"
proof -
  have "distinct (map fst (zip idx vals))" using assms(1,2) by (simp add: map_fst_zip)
  moreover have "k < length (zip idx vals)" using assms(2,3) by simp
  moreover have "fst (zip idx vals ! k) < length (replicate (length vals) (0::real))"
    using assms(2,3,4) by simp
  ultimately have "fold (\<lambda>(i, v) out. out[i := v]) (zip idx vals) (replicate (length vals) 0)
      ! (fst (zip idx vals ! k)) = snd (zip idx vals ! k)"
    by (rule fold_update_nth)
  then show ?thesis using assms(2,3) by (simp add: scatter_def)
qed

lemma fdrcorrection_length [simp]: "length (fdrcorrection ps) = length ps"
  by (simp add: fdrcorrection_def Let_def ecdf_def)


lemma fdrcorrection_bounds:
  assumes range: "\<forall>p\<in>set ps. 0 \<le> p \<and> p \<le> 1" and i: "i < length ps"
  shows "ps ! i \<le> fdrcorrection ps ! i \<and> 0 \<le> fdrcorrection ps ! i \<and> fdrcorrection ps ! i \<le> 1"
proof -
  define n where "n = length ps"
  define idx where "idx = argsort ps"
  define srt where "srt = map (\<lambda>i. ps ! i) idx"
  define raw where "raw = map (\<lambda>(p, e). p / e) (zip srt (ecdf n))"
  define corr where "corr = rev (minimum_accumulate (rev raw))"
  define clipped where "clipped = map (\<lambda>q. if q > 1 then 1 else q) corr"
  have fdr: "fdrcorrection ps = scatter idx clipped"
    by (simp add: fdrcorrection_def Let_def n_def idx_def srt_def raw_def corr_def clipped_def)
  have len: "length idx = n" "length srt = n" "length raw = n" "length corr = n" "length clipped = n"
    by (simp_all add: n_def idx_def srt_def raw_def corr_def clipped_def ecdf_def)
  have "i \<in> set idx" using i by (simp add: idx_def argsort_set)
  then obtain k where k: "k < n" "idx ! k = i"
    using len(1) by (auto simp: in_set_conv_nth)
  have "scatter idx clipped ! (idx ! k) = clipped ! k"
    using k i len by (intro scatter_nth) (simp_all add: idx_def argsort_distinct n_def)
  then have res: "fdrcorrection ps ! i = clipped ! k" using fdr k by simp
  have srt_nth: "srt ! j = ps ! (idx ! j)" if "j < n" for j
    using that len by (simp add: srt_def)
  have idx_lt: "idx ! j < n" if "j < n" for j
  proof -
    have "idx ! j \<in> set idx" using that len by simp
    then show ?thesis by (simp add: idx_def argsort_set n_def)
  qed
  have srt_range: "0 \<le> srt ! j \<and> srt ! j \<le> 1" if "j < n" for j
    using range idx_lt [OF that] srt_nth [OF that] by (simp add: n_def)
  have raw_ge: "srt ! j \<le> raw ! j" if "j < n" for j
  proof -
    have "raw ! j = srt ! j / (real (j + 1) / real n)"
      using that len by (simp add: raw_def ecdf_def)
    also have "\<dots> = srt ! j * (real n / real (j + 1))" by simp
    finally have eq: "raw ! j = srt ! j * (real n / real (j + 1))" .
    have "1 \<le> real n / real (j + 1)" using that by simp
    then have "srt ! j * 1 \<le> srt ! j * (real n / real (j + 1))"
      using srt_range [OF that] by (intro mult_left_mono) simp_all
    with eq show ?thesis by simp
  qed
  have "sorted srt" by (simp add: srt_def idx_def argsort_sorted)
  then have mono: "srt ! k \<le> srt ! j" if "k \<le> j" "j < n" for j
    using that len by (simp add: sorted_iff_nth_mono)
  have "srt ! k \<le> corr ! k" unfolding corr_def
  proof (rule rev_minimum_accumulate_lower)
    show "k < length raw" using k len by simp
    show "\<forall>j. k \<le> j \<and> j < length raw \<longrightarrow> srt ! k \<le> raw ! j"
      using mono raw_ge len by (auto intro: order_trans)
  qed
  moreover have "clipped ! k = (if corr ! k > 1 then 1 else corr ! k)"
    using k len by (simp add: clipped_def)
  moreover have "srt ! k = ps ! i" using srt_nth [OF k(1)] k by simp
  ultimately show ?thesis using res srt_range [OF k(1)] by auto
qed

text \<open>
  The adjusted value in closed form: the p-value of rank \<open>k + 1\<close> gets the least of
  \<open>p * m / j\<close> over the p-values of rank \<open>j \<ge> k + 1\<close>, and at most 1.
\<close>

lemma min_acc_nth:
  "i < length xs \<Longrightarrow> min_acc m xs ! i = Min (insert m (set (take (Suc i) xs)))"
proof (induction xs arbitrary: m i)
  case Nil
  then show ?case by simp
next
  case (Cons x xs)
  show ?case
  proof (cases i)
    case 0
    then show ?thesis by (simp add: min_def)
  next
    case (Suc i')
    with Cons.prems have i': "i' < length xs" by simp
    have "min_acc (min m x) xs ! i' = Min (insert (min m x) (set (take (Suc i') xs)))"
      using i' by (rule Cons.IH)
    also have "\<dots> = min (min m x) (Min (set (take (Suc i') xs)))"
      using i' by (cases xs) simp_all
    also have "\<dots> = Min (insert m (insert x (set (take (Suc i') xs))))"
      using i' by (cases xs) (simp_all add: min.assoc)
    finally show ?thesis using Suc by simp
  qed
qed

lemma minimum_accumulate_nth:
  assumes "i < length xs"
  shows "minimum_accumulate xs ! i = Min (set (take (Suc i) xs))"
proof (cases xs)
  case Nil
  with assms show ?thesis by simp
next
  case (Cons x xs')
  show ?thesis
  proof (cases i)
    case 0
    with Cons show ?thesis by (simp add: minimum_accumulate_def)
  next
    case (Suc i')
    with assms Cons have "i' < length xs'" by simp
    from min_acc_nth [OF this, of x] Suc Cons show ?thesis
      by (simp add: minimum_accumulate_def)
  qed
qed

lemma rev_minimum_accumulate_nth:
  assumes "k < length xs"
  shows "rev (minimum_accumulate (rev xs)) ! k = Min (set (drop k xs))"
proof -
  let ?n = "length xs"
  have "rev (minimum_accumulate (rev xs)) ! k = minimum_accumulate (rev xs) ! (?n - Suc k)"
    using assms by (simp add: rev_nth)
  also have "\<dots> = Min (set (take (Suc (?n - Suc k)) (rev xs)))"
    using assms by (intro minimum_accumulate_nth) simp
  also have "Suc (?n - Suc k) = ?n - k" using assms by simp
  also have "take (?n - k) (rev xs) = rev (drop k xs)"
    using assms by (simp add: take_rev)
  finally show ?thesis by simp
qed

lemma fdrcorrection_step_up:
  assumes k: "k < length ps"
  shows "fdrcorrection ps ! (argsort ps ! k) =
           min 1 (Min ((\<lambda>j. ps ! (argsort ps ! j) * real (length ps) / real (j + 1)) ` {k..<length ps}))"
proof -
  define n where "n = length ps"
  define idx where "idx = argsort ps"
  define srt where "srt = map (\<lambda>i. ps ! i) idx"
  define raw where "raw = map (\<lambda>(p, e). p / e) (zip srt (ecdf n))"
  define corr where "corr = rev (minimum_accumulate (rev raw))"
  define clipped where "clipped = map (\<lambda>q. if q > 1 then 1 else q) corr"
  have fdr: "fdrcorrection ps = scatter idx clipped"
    by (simp add: fdrcorrection_def Let_def n_def idx_def srt_def raw_def corr_def clipped_def)
  have len: "length idx = n" "length srt = n" "length raw = n" "length corr = n" "length clipped = n"
    by (simp_all add: n_def idx_def srt_def raw_def corr_def clipped_def ecdf_def)
  have kn: "k < n" using k by (simp add: n_def)
  have "idx ! k \<in> set idx" using kn len by simp
  then have "idx ! k < n" by (simp add: idx_def argsort_set n_def)
  then have "scatter idx clipped ! (idx ! k) = clipped ! k"
    using kn len by (intro scatter_nth) (simp_all add: idx_def argsort_distinct)
  then have res: "fdrcorrection ps ! (idx ! k) = min 1 (corr ! k)"
    using fdr kn len by (simp add: clipped_def min_def)
  have raw_nth: "raw ! j = ps ! (idx ! j) * real n / real (j + 1)" if "j < n" for j
    using that len by (simp add: raw_def srt_def ecdf_def)
  have "drop k raw = map (\<lambda>j. raw ! j) [k..<n]"
    using len(3) by (metis drop_map drop_upt map_nth minus_nat.diff_0 add.commute add_0)
  then have "set (drop k raw) = (\<lambda>j. raw ! j) ` {k..<n}" by simp
  also have "\<dots> = (\<lambda>j. ps ! (idx ! j) * real n / real (j + 1)) ` {k..<n}"
    by (intro image_cong) (simp_all add: raw_nth)
  finally have "corr ! k = Min ((\<lambda>j. ps ! (idx ! j) * real n / real (j + 1)) ` {k..<n})"
    using kn len by (simp add: corr_def rev_minimum_accumulate_nth)
  with res show ?thesis by (simp add: idx_def n_def)
qed

subsection \<open>Claims about \<open>P_sim\<close>\<close>

text \<open>
  Claim C1. For a bucket whose null sample \<open>v\<close> is sorted (and holds at least one value, so
  that the quotient exists), \<open>P_sim\<close> returns \<open>1 - rank / len(v)\<close>, where \<open>rank\<close>, the
  result of the left-inserting search, is the number of sampled values strictly less than
  the observed similarity and is the leftmost insertion position; the value lies in \<open>[0, 1]\<close>.
\<close>

theorem P_sim_empirical_p_value:
  assumes "srd (dist_key_of N_con) = Some v" and "sorted v" and "v \<noteq> []"
  shows "P_sim srd s N_con = Inr (1 - real (searchsorted v s) / real (length v)) \<and>
         searchsorted v s = length (filter (\<lambda>x. x < s) v) \<and>
         (\<forall>i<searchsorted v s. v ! i < s) \<and>
         (\<forall>i. searchsorted v s \<le> i \<and> i < length v \<longrightarrow> s \<le> v ! i) \<and>
         0 \<le> 1 - real (searchsorted v s) / real (length v) \<and>
         1 - real (searchsorted v s) / real (length v) \<le> 1"
proof -
  have val: "P_sim srd s N_con = Inr (1 - real (searchsorted v s) / real (length v))"
    using assms(1,3) by (rule P_sim_value [where srd = srd and N_con = N_con])
  from P_sim_range [OF val] val searchsorted_sorted [OF assms(2)]
    searchsorted_insertion_point [OF assms(2), of s]
  show ?thesis by simp
qed

theorem P_sim_empirical_p_value_witness:
  "[Bucket 2 \<mapsto> [1/10, 2/10, 3/10, 4/10 :: real]] (dist_key_of 4) = Some [1/10, 2/10, 3/10, 4/10] \<and>
   sorted [1/10, 2/10, 3/10, 4/10 :: real] \<and>
   P_sim [Bucket 2 \<mapsto> [1/10, 2/10, 3/10, 4/10]] (1/4) 4 = Inr (1/2) \<and>
   searchsorted [1/10, 2/10, 3/10, 4/10] (1/4) = 2"
proof -
  have k: "[Bucket 2 \<mapsto> [1/10, 2/10, 3/10, 4/10 :: real]] (dist_key_of 4) = Some [1/10, 2/10, 3/10, 4/10]"
    by (simp add: dist_key_of_def)
  have s: "sorted [1/10, 2/10, 3/10, 4/10 :: real]" by simp
  have n: "[1/10, 2/10, 3/10, 4/10 :: real] \<noteq> []" by simp
  from P_sim_empirical_p_value [where srd = "[Bucket 2 \<mapsto> [1/10, 2/10, 3/10, 4/10]]"
      and N_con = 4 and s = "1/4", OF k s n] k s
  show ?thesis by simp
qed

text \<open>
  Claim C7. For a fixed bucket with a sorted, non-empty null sample, a larger observed
  similarity never gets a larger p-value: both calls return, and the p-value of the larger
  similarity is at most that of the smaller one.
\<close>

theorem P_sim_non_increasing:
  assumes "srd (dist_key_of N_con) = Some v" and "sorted v" and "v \<noteq> []" and "s2 < s1"
  shows "\<exists>p1 p2. P_sim srd s1 N_con = Inr p1 \<and> P_sim srd s2 N_con = Inr p2 \<and> p1 \<le> p2"
proof -
  have "searchsorted v s2 \<le> searchsorted v s1"
    using assms(2,4) by (intro searchsorted_mono) simp_all
  then have "real (searchsorted v s2) / real (length v) \<le> real (searchsorted v s1) / real (length v)"
    by (simp add: divide_right_mono)
  then show ?thesis
    using P_sim_value [where srd = srd and N_con = N_con, OF assms(1,3)] by simp
qed

theorem P_sim_non_increasing_witness:
  "[Bucket 2 \<mapsto> [1/10, 2/10, 3/10, 4/10 :: real]] (dist_key_of 4) = Some [1/10, 2/10, 3/10, 4/10] \<and>
   sorted [1/10, 2/10, 3/10, 4/10 :: real] \<and> (1/4 :: real) < 7/20 \<and>
   (\<exists>p1 p2. P_sim [Bucket 2 \<mapsto> [1/10, 2/10, 3/10, 4/10]] (7/20) 4 = Inr p1 \<and>
      P_sim [Bucket 2 \<mapsto> [1/10, 2/10, 3/10, 4/10]] (1/4) 4 = Inr p2 \<and> p1 \<le> p2)"
proof -
  have k: "[Bucket 2 \<mapsto> [1/10, 2/10, 3/10, 4/10 :: real]] (dist_key_of 4) = Some [1/10, 2/10, 3/10, 4/10]"
    by (simp add: dist_key_of_def)
  have s: "sorted [1/10, 2/10, 3/10, 4/10 :: real]" by simp
  have n: "[1/10, 2/10, 3/10, 4/10 :: real] \<noteq> []" by simp
  have l: "(1/4 :: real) < 7/20" by simp
  from P_sim_non_increasing [where srd = "[Bucket 2 \<mapsto> [1/10, 2/10, 3/10, 4/10]]"
      and N_con = 4, OF k s n l] k s l
  show ?thesis by blast
qed

lemma candidate_loop_Inr:
  "candidate_loop g srd N simdf = Inr cols \<Longrightarrow>
   length cols = length simdf \<and> (\<forall>c\<in>set cols. 0 \<le> snd (snd c) \<and> snd (snd c) \<le> 1)"
proof (induction simdf arbitrary: cols)
  case Nil
  then show ?case by simp
next
  case (Cons a simdf)
  obtain go s where a: "a = (go, s)" by (cases a)
  from Cons.prems a obtain nb des p cols' where
    parts: "adj g go = Some nb" "node g go ''name'' = Some des"
      "P_sim srd s (min (length nb) N) = Inr p"
      "candidate_loop g srd N simdf = Inr cols'" "cols = (length nb, des, p) # cols'"
    by (auto simp: Let_def split: option.splits sum.splits)
  from P_sim_range [OF parts(3)] Cons.IH [OF parts(4)] parts(5)
  show ?case by simp
qed

lemma get_GO_df_filter:
  "get_GO_df g nv srd geneoi N alpha_FDR =
     (case get_GO_df g nv srd geneoi N 1 of
        Inl e \<Rightarrow> Inl e
      | Inr full \<Rightarrow> Inr (if alpha_FDR < 1 then filter (\<lambda>r. padj r < alpha_FDR) full else full))"
  by (simp add: get_GO_df_def Let_def split: option.splits sum.splits)

lemma get_GO_df_unfiltered:
  assumes "get_GO_df g nv srd geneoi N 1 = Inr full"
  shows "\<exists>nb ranking cols.
           adj g geneoi = Some nb \<and> nv geneoi = Some ranking \<and>
           candidate_loop g srd N (filter (\<lambda>(go, sim). go \<in> set nb \<inter> GO_nodes g) ranking) = Inr cols \<and>
           full = map make_row
                    (zip (filter (\<lambda>(go, sim). go \<in> set nb \<inter> GO_nodes g) ranking)
                       (zip cols (fdrcorrection (map (\<lambda>(N_GO_con, des, p). p) cols))))"
  using assms by (auto simp: get_GO_df_def Let_def split: option.splits sum.splits)

lemma make_row_columns:
  assumes "length simdf = length cols" "length cols = length qs"
  shows "map pval (map make_row (zip simdf (zip cols qs))) = map (\<lambda>(N_GO_con, des, p). p) cols"
    and "map padj (map make_row (zip simdf (zip cols qs))) = qs"
    and "map GO_ID (map make_row (zip simdf (zip cols qs))) = map fst simdf"
    and "map similarity (map make_row (zip simdf (zip cols qs))) = map snd simdf"
  using assms by (induction simdf cols qs rule: list_induct3; auto simp: make_row_def)+

lemma get_GO_df_unfiltered_BH:
  assumes "get_GO_df g nv srd geneoi N 1 = Inr full"
  shows "map padj full = fdrcorrection (map pval full)"
    and "\<forall>r\<in>set full. pval r \<le> padj r \<and> 0 \<le> padj r \<and> padj r \<le> 1"
proof -
  from get_GO_df_unfiltered [OF assms] obtain nb ranking cols where
    loop: "candidate_loop g srd N (filter (\<lambda>(go, sim). go \<in> set nb \<inter> GO_nodes g) ranking) = Inr cols"
    and full: "full = map make_row
                    (zip (filter (\<lambda>(go, sim). go \<in> set nb \<inter> GO_nodes g) ranking)
                       (zip cols (fdrcorrection (map (\<lambda>(N_GO_con, des, p). p) cols))))"
    by blast
  let ?simdf = "filter (\<lambda>(go, sim). go \<in> set nb \<inter> GO_nodes g) ranking"
  let ?ps = "map (\<lambda>(N_GO_con, des, p). p) cols"
  from candidate_loop_Inr [OF loop] have len: "length ?simdf = length cols"
    and range: "\<forall>c\<in>set cols. 0 \<le> snd (snd c) \<and> snd (snd c) \<le> 1" by simp_all
  have len2: "length cols = length (fdrcorrection ?ps)" by simp
  have pv: "map pval full = ?ps" unfolding full by (rule make_row_columns(1) [OF len len2])
  have pa: "map padj full = fdrcorrection ?ps" unfolding full by (rule make_row_columns(2) [OF len len2])
  show "map padj full = fdrcorrection (map pval full)" using pv pa by simp
  have psr: "\<forall>p\<in>set ?ps. 0 \<le> p \<and> p \<le> 1" using range by auto
  show "\<forall>r\<in>set full. pval r \<le> padj r \<and> 0 \<le> padj r \<and> padj r \<le> 1"
  proof
    fix r assume "r \<in> set full"
    then obtain i where i: "i < length full" "r = full ! i" by (auto simp: in_set_conv_nth)
    have lf: "length full = length ?ps" using arg_cong [OF pv, of length] by simp
    have "pval r = ?ps ! i" using i pv by (metis length_map nth_map)
    moreover have "padj r = fdrcorrection ?ps ! i" using i pa by (metis length_map nth_map)
    moreover have "i < length ?ps" using i lf by simp
    ultimately show "pval r \<le> padj r \<and> 0 \<le> padj r \<and> padj r \<le> 1"
      using fdrcorrection_bounds [OF psr, of i] by simp
  qed
qed


lemma g0_G1_nv1_unfiltered:
  "get_GO_df g0 nv1 srd0 ''G1'' 2 1 =
     Inr [\<lparr>GO_description = ''alpha'', GO_ID = ''GO:1'', N_con_GO = 2, similarity = 9/10,
           pval = 0, padj = 0\<rparr>,
          \<lparr>GO_description = ''beta'', GO_ID = ''GO:2'', N_con_GO = 1, similarity = 3/10,
           pval = 1/2, padj = 1/2\<rparr>]"
  by (simp add: example_defs eval_defs)

subsection \<open>Claims about \<open>get_GO_df\<close>\<close>

text \<open>
  Claim C2. The q-values of a gene's rows are the Benjamini-Hochberg adjustment of that
  gene's own p-values: the unfiltered table of the gene has one row for every candidate GO
  term of the gene (a neighbour that is a GO node, in the order of the similarity
  ranking), its \<open>padj\<close> column is \<open>fdrcorrection\<close> of its \<open>pval\<close> column, that is the
  step-up adjustment with \<open>m\<close> the number of candidates of this gene, and every returned
  row has \<open>q \<ge> p\<close> and \<open>q\<close> in \<open>[0, 1]\<close>.
\<close>

theorem get_GO_df_benjamini_hochberg:
  assumes "get_GO_df g nv srd geneoi N_gene_con alpha_FDR = Inr rows"
  shows "\<exists>full nb ranking.
           get_GO_df g nv srd geneoi N_gene_con 1 = Inr full \<and>
           adj g geneoi = Some nb \<and> nv geneoi = Some ranking \<and>
           map GO_ID full = filter (\<lambda>go. go \<in> set nb \<inter> GO_nodes g) (map fst ranking) \<and>
           map padj full = fdrcorrection (map pval full) \<and>
           (\<forall>k<length full.
              fdrcorrection (map pval full) ! (argsort (map pval full) ! k) =
                min 1 (Min ((\<lambda>j. map pval full ! (argsort (map pval full) ! j) *
                                real (length full) / real (j + 1)) ` {k..<length full}))) \<and>
           set rows \<subseteq> set full \<and>
           (\<forall>r\<in>set rows. pval r \<le> padj r \<and> 0 \<le> padj r \<and> padj r \<le> 1)"
proof -
  from assms obtain full where full: "get_GO_df g nv srd geneoi N_gene_con 1 = Inr full"
    and rows: "rows = (if alpha_FDR < 1 then filter (\<lambda>r. padj r < alpha_FDR) full else full)"
    by (subst (asm) get_GO_df_filter) (auto split: sum.splits)
  from get_GO_df_unfiltered [OF full] obtain nb ranking cols where
    parts: "adj g geneoi = Some nb" "nv geneoi = Some ranking"
      "candidate_loop g srd N_gene_con (filter (\<lambda>(go, sim). go \<in> set nb \<inter> GO_nodes g) ranking) = Inr cols"
      "full = map make_row
                (zip (filter (\<lambda>(go, sim). go \<in> set nb \<inter> GO_nodes g) ranking)
                   (zip cols (fdrcorrection (map (\<lambda>(N_GO_con, des, p). p) cols))))"
    by blast
  have len: "length (filter (\<lambda>(go, sim). go \<in> set nb \<inter> GO_nodes g) ranking) = length cols"
    using candidate_loop_Inr [OF parts(3)] by simp
  have "map GO_ID full = map fst (filter (\<lambda>(go, sim). go \<in> set nb \<inter> GO_nodes g) ranking)"
    unfolding parts(4) by (rule make_row_columns(3) [OF len]) simp
  also have "\<dots> = filter (\<lambda>go. go \<in> set nb \<inter> GO_nodes g) (map fst ranking)"
    by (simp add: filter_map comp_def case_prod_unfold)
  finally have ids: "map GO_ID full = filter (\<lambda>go. go \<in> set nb \<inter> GO_nodes g) (map fst ranking)" .
  have sub: "set rows \<subseteq> set full" using rows by auto
  have step: "\<forall>k<length full.
              fdrcorrection (map pval full) ! (argsort (map pval full) ! k) =
                min 1 (Min ((\<lambda>j. map pval full ! (argsort (map pval full) ! j) *
                                real (length full) / real (j + 1)) ` {k..<length full}))"
    using fdrcorrection_step_up [of _ "map pval full"] by simp
  from sub step get_GO_df_unfiltered_BH [OF full] full parts(1,2) ids show ?thesis by blast
qed

theorem get_GO_df_benjamini_hochberg_witness:
  "get_GO_df g0 nv0 srd0 ''G1'' 2 (3/4) =
     Inr [\<lparr>GO_description = ''alpha'', GO_ID = ''GO:1'', N_con_GO = 2, similarity = 3/5,
           pval = 1/4, padj = 1/2\<rparr>,
          \<lparr>GO_description = ''beta'', GO_ID = ''GO:2'', N_con_GO = 1, similarity = 3/10,
           pval = 1/2, padj = 1/2\<rparr>] \<and>
   (\<exists>full. get_GO_df g0 nv0 srd0 ''G1'' 2 1 = Inr full \<and>
      map padj full = fdrcorrection (map pval full))"
proof -
  have e: "get_GO_df g0 nv0 srd0 ''G1'' 2 (3/4) =
     Inr [\<lparr>GO_description = ''alpha'', GO_ID = ''GO:1'', N_con_GO = 2, similarity = 3/5,
           pval = 1/4, padj = 1/2\<rparr>,
          \<lparr>GO_description = ''beta'', GO_ID = ''GO:2'', N_con_GO = 1, similarity = 3/10,
           pval = 1/2, padj = 1/2\<rparr>]"
    by (simp add: example_defs eval_defs)
  from get_GO_df_benjamini_hochberg [OF e] e show ?thesis by blast
qed

text \<open>
  Claim C5, as amended. When \<open>alpha_FDR < 1\<close> the rows kept are exactly those with
  \<open>q < alpha_FDR\<close>, so a row whose q-value equals \<open>alpha_FDR\<close> is dropped; otherwise
  all rows are kept.
\<close>

theorem get_GO_df_drops_at_threshold:
  assumes "get_GO_df g nv srd geneoi N_gene_con 1 = Inr full"
  shows "get_GO_df g nv srd geneoi N_gene_con alpha_FDR =
           Inr (if alpha_FDR < 1 then filter (\<lambda>r. padj r < alpha_FDR) full else full)"
  using assms by (subst get_GO_df_filter) simp

theorem get_GO_df_drops_at_threshold_witness:
  "get_GO_df g0 nv1 srd0 ''G1'' 2 1 =
     Inr [\<lparr>GO_description = ''alpha'', GO_ID = ''GO:1'', N_con_GO = 2, similarity = 9/10,
           pval = 0, padj = 0\<rparr>,
          \<lparr>GO_description = ''beta'', GO_ID = ''GO:2'', N_con_GO = 1, similarity = 3/10,
           pval = 1/2, padj = 1/2\<rparr>] \<and>
   get_GO_df g0 nv1 srd0 ''G1'' 2 (1/4) =
     Inr [\<lparr>GO_description = ''alpha'', GO_ID = ''GO:1'', N_con_GO = 2, similarity = 9/10,
           pval = 0, padj = 0\<rparr>]"
  using get_GO_df_drops_at_threshold [OF g0_G1_nv1_unfiltered, of "1/4"] g0_G1_nv1_unfiltered
  by simp

text \<open>
  The claim as stated fails: with \<open>alpha_FDR = 1/2\<close> the row of \<open>GO:2\<close>, whose q-value
  is \<open>1/2\<close>, is dropped.
\<close>

theorem get_GO_df_threshold_counterexample:
  "get_GO_df g0 nv1 srd0 ''G1'' 2 1 =
     Inr [\<lparr>GO_description = ''alpha'', GO_ID = ''GO:1'', N_con_GO = 2, similarity = 9/10,
           pval = 0, padj = 0\<rparr>,
          \<lparr>GO_description = ''beta'', GO_ID = ''GO:2'', N_con_GO = 1, similarity = 3/10,
           pval = 1/2, padj = 1/2\<rparr>] \<and>
   get_GO_df g0 nv1 srd0 ''G1'' 2 (1/2) =
     Inr [\<lparr>GO_description = ''alpha'', GO_ID = ''GO:1'', N_con_GO = 2, similarity = 9/10,
           pval = 0, padj = 0\<rparr>]"
  by (simp add: example_defs eval_defs)

subsection \<open>Exceptions in the loop over the nodes\<close>

lemma node_loop_skip:
  assumes "node_rows g hgncid nv srd alpha_FDR n = Inl KeyError \<or>
           node_rows g hgncid nv srd alpha_FDR n = Inr []"
  shows "node_loop g hgncid nv srd alpha_FDR (ns1 @ n # ns2) =
         node_loop g hgncid nv srd alpha_FDR (ns1 @ ns2)"
proof (induction ns1)
  case Nil
  from assms show ?case by (auto split: sum.splits)
next
  case (Cons a ns1)
  then show ?case by (auto split: sum.splits error.splits)
qed

lemma get_GO_df_no_candidates:
  assumes "adj g geneoi = Some nb" "set nb \<inter> GO_nodes g = {}"
  shows "get_GO_df g nv srd geneoi N alpha_FDR =
           (case nv geneoi of None \<Rightarrow> Inl KeyError | Some ranking \<Rightarrow> Inr [])"
  using assms
  by (simp add: get_GO_df_def fdrcorrection_def argsort_def ecdf_def minimum_accumulate_def
      scatter_def split: option.splits)

lemma node_rows_no_candidates:
  assumes "adj g n = Some nb" "set nb \<inter> GO_nodes g = {}"
  shows "node_rows g hgncid nv srd alpha_FDR n = Inl KeyError \<or>
         node_rows g hgncid nv srd alpha_FDR n = Inr []"
  using assms get_GO_df_no_candidates [where nv = nv and srd = srd and N = "length nb"
      and alpha_FDR = alpha_FDR, OF assms]
  by (auto simp: node_rows_def split: option.splits)

lemma node_rows_in_vocab_no_candidates:
  assumes "adj g n = Some nb" "set nb \<inter> GO_nodes g = {}" "nv n = Some ranking"
    "node g n ''HGNC'' = Some h"
  shows "node_rows g hgncid nv srd alpha_FDR n = Inr []"
  using assms get_GO_df_no_candidates [where nv = nv and srd = srd and N = "length nb"
      and alpha_FDR = alpha_FDR, OF assms(1,2)]
  by (auto simp: node_rows_def split: option.splits)

lemma node_loop_ZeroDivisionError:
  assumes "node_rows g hgncid nv srd alpha_FDR n = Inl ZeroDivisionError"
  shows "node_loop g hgncid nv srd alpha_FDR (ns1 @ n # ns2) = Inl ZeroDivisionError"
proof (induction ns1)
  case Nil
  from assms show ?case by simp
next
  case (Cons a ns1)
  then show ?case by (auto split: sum.splits error.splits)
qed

lemma node_rows_not_in_vocabulary:
  assumes "node g n ''HGNC'' = Some h" "h \<in> set hgncid" "adj g n = Some nb" "nv n = None"
  shows "node_rows g hgncid nv srd alpha_FDR n = Inl KeyError"
  using assms by (simp add: node_rows_def get_GO_df_def)

lemma P_sim_missing_bucket:
  "srd (dist_key_of N_con) = None \<Longrightarrow> P_sim srd s N_con = Inl KeyError"
  by (simp add: P_sim_def)

lemma candidate_loop_missing_bucket:
  assumes "adj g go = Some nb" "node g go ''name'' = Some des"
    "srd (dist_key_of (min (length nb) N)) = None"
  shows "candidate_loop g srd N ((go, s) # rest) = Inl KeyError"
  using assms by (simp add: P_sim_def)

lemma g0_G3: "adj g0 ''G3'' = Some [''G2'']" "set [''G2''] \<inter> GO_nodes g0 = {}"
  by (simp_all add: example_defs eval_defs)


text \<open>
  Claim C9. A gene whose neighbours include no GO node adds no row to the replicate's
  table and raises nothing in \<open>generate_output\<close>: the loop over the nodes gives what it
  gives without that node. For a gene in the vocabulary of the replicate, \<open>get_GO_df\<close>
  itself returns the empty table; for a gene outside it the \<open>KeyError\<close> of the lookup is
  caught by the loop, with the same result.
\<close>

theorem gene_without_GO_candidates:
  assumes "adj g n = Some nb" and "set nb \<inter> GO_nodes g = {}"
  shows "node_loop g hgncid nv srd alpha_FDR (ns1 @ n # ns2) =
           node_loop g hgncid nv srd alpha_FDR (ns1 @ ns2) \<and>
         (\<forall>ranking. nv n = Some ranking \<longrightarrow>
            get_GO_df g nv srd n (length nb) alpha_FDR = Inr [] \<and>
            (\<forall>h. node g n ''HGNC'' = Some h \<longrightarrow> node_rows g hgncid nv srd alpha_FDR n = Inr []))"
proof -
  have "node_loop g hgncid nv srd alpha_FDR (ns1 @ n # ns2) =
        node_loop g hgncid nv srd alpha_FDR (ns1 @ ns2)"
    using node_rows_no_candidates [where hgncid = hgncid and nv = nv and srd = srd
        and alpha_FDR = alpha_FDR, OF assms]
    by (rule node_loop_skip)
  moreover have "get_GO_df g nv srd n (length nb) alpha_FDR = Inr []" if "nv n = Some ranking" for ranking
    using get_GO_df_no_candidates [where nv = nv and srd = srd and N = "length nb"
        and alpha_FDR = alpha_FDR, OF assms] that by simp
  moreover have "node_rows g hgncid nv srd alpha_FDR n = Inr []"
    if "nv n = Some ranking" "node g n ''HGNC'' = Some h" for ranking h
    using node_rows_in_vocab_no_candidates [where nv = nv, OF assms that] .
  ultimately show ?thesis by blast
qed

theorem gene_without_GO_candidates_witness:
  "adj g0 ''G3'' = Some [''G2''] \<and> set [''G2''] \<inter> GO_nodes g0 = {} \<and>
   node_loop g0 [''H1'', ''H2'', ''H3''] nv0 srd0 1 ([''G1'', ''G2''] @ ''G3'' # [''GO:1'', ''GO:2'']) =
     node_loop g0 [''H1'', ''H2'', ''H3''] nv0 srd0 1 ([''G1'', ''G2''] @ [''GO:1'', ''GO:2'']) \<and>
   get_GO_df g0 nv0 srd0 ''G3'' (length [''G2'']) 1 = Inr [] \<and>
   node_rows g0 [''H1'', ''H2'', ''H3''] nv0 srd0 1 ''G3'' = Inr []"
proof -
  have v: "nv0 ''G3'' = Some [(''G2'', 7/10), (''GO:1'', 1/5), (''G1'', 1/10), (''GO:2'', 0)]"
    by (simp add: example_defs)
  have h: "node g0 ''G3'' ''HGNC'' = Some ''H3''" by (simp add: example_defs)
  from gene_without_GO_candidates [where g = g0 and n = "''G3''" and nv = nv0, OF g0_G3,
      of "[''H1'', ''H2'', ''H3'']" srd0 1 "[''G1'', ''G2'']" "[''GO:1'', ''GO:2'']"] v h g0_G3
  show ?thesis by simp
qed

subsection \<open>The outer merge\<close>

lemma set_merge_outer:
  "m' \<in> set (merge_outer k M t) \<longleftrightarrow>
     (\<exists>l\<in>set M. ident l \<notin> ident_of ` set t \<and> m' = l\<lparr>reps := reps l @ [None]\<rparr>) \<or>
     (\<exists>l\<in>set M. \<exists>r\<in>set t. ident_of r = ident l \<and> m' = l\<lparr>reps := reps l @ [Some (values_of r)]\<rparr>) \<or>
     (\<exists>r\<in>set t. ident_of r \<notin> ident ` set M \<and>
        m' = \<lparr>ident = ident_of r, reps = replicate k None @ [Some (values_of r)]\<rparr>)"
proof -
  have left: "m' \<in> set (case filter (\<lambda>r. ident_of r = ident l) t of
                  [] \<Rightarrow> [l\<lparr>reps := reps l @ [None]\<rparr>]
                | ms \<Rightarrow> map (\<lambda>r. l\<lparr>reps := reps l @ [Some (values_of r)]\<rparr>) ms) \<longleftrightarrow>
        (ident l \<notin> ident_of ` set t \<and> m' = l\<lparr>reps := reps l @ [None]\<rparr>) \<or>
        (\<exists>r\<in>set t. ident_of r = ident l \<and> m' = l\<lparr>reps := reps l @ [Some (values_of r)]\<rparr>)" for l
  proof (cases "filter (\<lambda>r. ident_of r = ident l) t")
    case Nil
    then have no: "\<forall>r\<in>set t. ident_of r \<noteq> ident l" by (simp add: filter_empty_conv)
    then have "ident l \<notin> ident_of ` set t" by auto
    with Nil no show ?thesis by auto
  next
    case (Cons x xs)
    have sx: "set (x # xs) = {r \<in> set t. ident_of r = ident l}"
      using Cons by (metis set_filter)
    then have "x \<in> set t \<and> ident_of x = ident l" by auto
    then have in_t: "ident l \<in> ident_of ` set t" by force
    note sx
    then have "m' \<in> set (map (\<lambda>r. l\<lparr>reps := reps l @ [Some (values_of r)]\<rparr>) (x # xs)) \<longleftrightarrow>
        (\<exists>r\<in>set t. ident_of r = ident l \<and> m' = l\<lparr>reps := reps l @ [Some (values_of r)]\<rparr>)"
      by (simp only: set_map) auto
    with Cons in_t show ?thesis by simp
  qed
  show ?thesis
    unfolding merge_outer_def set_append set_concat set_map Un_iff UN_iff image_iff
    using left by (auto simp: image_iff)
qed


lemma present_append: "present (xs @ ys) = present xs @ present ys"
  by (induction xs rule: present.induct) simp_all

lemma present_replicate_None [simp]: "present (replicate k None) = []"
  by (induction k) simp_all

lemma row_agrees_extend:
  assumes l: "row_agrees tabs l"
    and some: "\<And>v. x = Some v \<Longrightarrow> \<exists>r\<in>set t. ident_of r = ident l \<and> values_of r = v"
    and none: "x = None \<Longrightarrow> ident l \<notin> ident_of ` set t"
  shows "row_agrees (tabs @ [t]) (l\<lparr>reps := reps l @ [x]\<rparr>)"
proof -
  from l have len: "length (reps l) = length tabs" and pr: "present (reps l) \<noteq> []"
    and old_some: "\<And>i v. i < length tabs \<Longrightarrow> reps l ! i = Some v \<Longrightarrow>
        \<exists>r\<in>set (tabs ! i). ident_of r = ident l \<and> values_of r = v"
    and old_none: "\<And>i. i < length tabs \<Longrightarrow> reps l ! i = None \<Longrightarrow>
        ident l \<notin> ident_of ` set (tabs ! i)"
    unfolding row_agrees_def by blast+
  have new_some: "\<exists>r\<in>set ((tabs @ [t]) ! i). ident_of r = ident l \<and> values_of r = v"
    if "i < Suc (length tabs)" "(reps l @ [x]) ! i = Some v" for i v
  proof (cases "i < length tabs")
    case True
    with old_some [OF True, of v] that len show ?thesis by (simp add: nth_append)
  next
    case False
    with that have "i = length tabs" by simp
    with some [of v] that len show ?thesis by (simp add: nth_append)
  qed
  have new_none: "ident l \<notin> ident_of ` set ((tabs @ [t]) ! i)"
    if "i < Suc (length tabs)" "(reps l @ [x]) ! i = None" for i
  proof (cases "i < length tabs")
    case True
    with old_none [OF True] that len show ?thesis by (simp add: nth_append)
  next
    case False
    with that have "i = length tabs" by simp
    with none that len show ?thesis by (simp add: nth_append)
  qed
  from len pr new_some new_none show ?thesis
    by (simp add: row_agrees_def present_append)
qed

lemma merge_outer_agrees:
  assumes agr: "\<forall>m\<in>set M. row_agrees tabs m" and com: "merge_complete tabs M"
    and k: "length tabs = k"
  shows "\<forall>m'\<in>set (merge_outer k M t). row_agrees (tabs @ [t]) m'"
proof
  fix m' assume "m' \<in> set (merge_outer k M t)"
  then consider
      (unmatched) l where "l \<in> set M" "ident l \<notin> ident_of ` set t" "m' = l\<lparr>reps := reps l @ [None]\<rparr>"
    | (matched) l r where "l \<in> set M" "r \<in> set t" "ident_of r = ident l"
        "m' = l\<lparr>reps := reps l @ [Some (values_of r)]\<rparr>"
    | (right) r where "r \<in> set t" "ident_of r \<notin> ident ` set M"
        "m' = \<lparr>ident = ident_of r, reps = replicate k None @ [Some (values_of r)]\<rparr>"
    unfolding set_merge_outer by blast
  then show "row_agrees (tabs @ [t]) m'"
  proof cases
    case unmatched
    with agr show ?thesis by (auto intro!: row_agrees_extend)
  next
    case matched
    with agr show ?thesis by (auto intro!: row_agrees_extend)
  next
    case right
    have none: "ident_of r \<notin> ident_of ` set (tabs ! i)" if "i < k" for i
    proof
      assume "ident_of r \<in> ident_of ` set (tabs ! i)"
      then obtain r0 where "r0 \<in> set (tabs ! i)" "ident_of r0 = ident_of r" by auto
      with com that k obtain m where "m \<in> set M" "ident m = ident_of r"
        unfolding merge_complete_def by metis
      with right(2) show False by force
    qed
    have new_some: "\<exists>r'\<in>set ((tabs @ [t]) ! i). ident_of r' = ident_of r \<and> values_of r' = v"
      if "i < Suc k" "(replicate k None @ [Some (values_of r)]) ! i = Some v" for i v
    proof (cases "i < k")
      case True
      with that show ?thesis by (simp add: nth_append)
    next
      case False
      with that have "i = k" by simp
      with right(1) k that show ?thesis by (auto simp: nth_append)
    qed
    have new_none: "ident_of r \<notin> ident_of ` set ((tabs @ [t]) ! i)"
      if "i < Suc k" "(replicate k None @ [Some (values_of r)]) ! i = None" for i
    proof (cases "i < k")
      case True
      with none [OF True] k show ?thesis by (simp add: nth_append)
    next
      case False
      with that have "i = k" by simp
      with that show ?thesis by (simp add: nth_append)
    qed
    from new_some new_none right(3) k show ?thesis
      by (simp add: row_agrees_def present_append)
  qed
qed

lemma merge_outer_complete:
  assumes agr: "\<forall>m\<in>set M. row_agrees tabs m" and com: "merge_complete tabs M"
    and k: "length tabs = k"
  shows "merge_complete (tabs @ [t]) (merge_outer k M t)"
  unfolding merge_complete_def
proof (intro allI impI ballI)
  fix i r assume i: "i < length (tabs @ [t])" and r: "r \<in> set ((tabs @ [t]) ! i)"
  show "\<exists>m\<in>set (merge_outer k M t). ident m = ident_of r \<and> reps m ! i = Some (values_of r)"
  proof (cases "i < k")
    case True
    with r k have "r \<in> set (tabs ! i)" by (simp add: nth_append)
    with com True k obtain l where l: "l \<in> set M" "ident l = ident_of r"
        "reps l ! i = Some (values_of r)"
      unfolding merge_complete_def by metis
    from agr l(1) k have len: "length (reps l) = k" by (simp add: row_agrees_def)
    show ?thesis
    proof (cases "ident l \<in> ident_of ` set t")
      case False
      with l(1) have mem: "l\<lparr>reps := reps l @ [None]\<rparr> \<in> set (merge_outer k M t)"
        unfolding set_merge_outer by blast
      have "(reps l @ [None]) ! i = Some (values_of r)"
        using True len l(3) by (simp add: nth_append)
      with l(2) show ?thesis by (intro bexI [OF _ mem]) simp
    next
      case in_t: True
      then obtain r' where r': "r' \<in> set t" "ident_of r' = ident l" by auto
      with l(1) have mem: "l\<lparr>reps := reps l @ [Some (values_of r')]\<rparr> \<in> set (merge_outer k M t)"
        unfolding set_merge_outer by blast
      have "(reps l @ [Some (values_of r')]) ! i = Some (values_of r)"
        using True len l(3) by (simp add: nth_append)
      with l(2) show ?thesis by (intro bexI [OF _ mem]) simp
    qed
  next
    case False
    with i k have ik: "i = k" by simp
    with r k have rt: "r \<in> set t" by (simp add: nth_append)
    show ?thesis
    proof (cases "ident_of r \<in> ident ` set M")
      case True
      then obtain l where l: "l \<in> set M" "ident l = ident_of r" by auto
      from agr l(1) k have len: "length (reps l) = k" by (simp add: row_agrees_def)
      from l rt have mem: "l\<lparr>reps := reps l @ [Some (values_of r)]\<rparr> \<in> set (merge_outer k M t)"
        unfolding set_merge_outer by force
      have "(reps l @ [Some (values_of r)]) ! i = Some (values_of r)"
        using ik len by (simp add: nth_append)
      with l(2) show ?thesis by (intro bexI [OF _ mem]) simp
    next
      case False
      with rt have mem: "\<lparr>ident = ident_of r, reps = replicate k None @ [Some (values_of r)]\<rparr>
          \<in> set (merge_outer k M t)"
        unfolding set_merge_outer by blast
      have "(replicate k None @ [Some (values_of r)]) ! i = Some (values_of r)"
        using ik by (simp add: nth_append)
      then show ?thesis by (intro bexI [OF _ mem]) simp
    qed
  qed
qed

lemma merge_all_agrees:
  assumes "\<forall>m\<in>set M. row_agrees tabs m" "merge_complete tabs M" "length tabs = k"
  shows "(\<forall>m\<in>set (merge_all k M ts). row_agrees (tabs @ ts) m) \<and>
         merge_complete (tabs @ ts) (merge_all k M ts)"
  using assms
proof (induction ts arbitrary: M tabs k)
  case Nil
  then show ?case by simp
next
  case (Cons t ts)
  have "(\<forall>m\<in>set (merge_all (Suc k) (merge_outer k M t) ts). row_agrees ((tabs @ [t]) @ ts) m) \<and>
        merge_complete ((tabs @ [t]) @ ts) (merge_all (Suc k) (merge_outer k M t) ts)"
  proof (rule Cons.IH)
    show "\<forall>m\<in>set (merge_outer k M t). row_agrees (tabs @ [t]) m"
      using Cons.prems by (rule merge_outer_agrees)
    show "merge_complete (tabs @ [t]) (merge_outer k M t)"
      using Cons.prems by (rule merge_outer_complete)
    show "length (tabs @ [t]) = Suc k" using Cons.prems(3) by simp
  qed
  then show ?case by simp
qed

lemma merged_table_agrees:
  assumes "merged_table g hgncid nvs srd alpha_FDR = Inr merged"
  shows "\<exists>tables. all_replicates g hgncid nvs srd alpha_FDR = Inr tables \<and>
           length tables = length nvs \<and>
           (\<forall>m\<in>set merged. row_agrees tables m) \<and> merge_complete tables merged"
proof -
  from assms obtain t ts where tabs: "all_replicates g hgncid nvs srd alpha_FDR = Inr (t # ts)"
    and merged: "merged = merge_all 1
        (map (\<lambda>r. \<lparr>ident = ident_of r, reps = [Some (values_of r)]\<rparr>) t) ts"
    by (auto simp: merged_table_def split: sum.splits list.splits)
  let ?M = "map (\<lambda>r. \<lparr>ident = ident_of r, reps = [Some (values_of r)]\<rparr>) t"
  have "\<forall>m\<in>set ?M. row_agrees [t] m" by (auto simp: row_agrees_def)
  moreover have "merge_complete [t] ?M" by (auto simp: merge_complete_def)
  ultimately have "(\<forall>m\<in>set (merge_all 1 ?M ts). row_agrees ([t] @ ts) m) \<and>
         merge_complete ([t] @ ts) (merge_all 1 ?M ts)"
    by (intro merge_all_agrees) simp_all
  moreover have "length tables = length nvs"
    if "all_replicates g hgncid nvs srd alpha_FDR = Inr tables" for tables
    using that by (induction nvs arbitrary: tables) (auto split: sum.splits)
  ultimately show ?thesis using tabs merged by auto
qed

subsection \<open>Exceptions and the run\<close>

lemma P_sim_error:
  assumes "\<forall>k. srd k \<noteq> Some []"
  shows "P_sim srd s N \<noteq> Inl ZeroDivisionError"
  using assms by (auto simp: P_sim_def Let_def split: option.splits)

lemma candidate_loop_missing_bucket_anywhere:
  assumes "\<forall>k. srd k \<noteq> Some []" "(go, s) \<in> set simdf" "adj g go = Some nbg"
    "srd (dist_key_of (min (length nbg) N)) = None"
  shows "candidate_loop g srd N simdf = Inl KeyError"
  using assms(2)
proof (induction simdf)
  case Nil
  then show ?case by simp
next
  case (Cons c simdf)
  obtain go' s' where c: "c = (go', s')" by (cases c)
  show ?case
  proof (cases "adj g go'")
    case None
    with c show ?thesis by simp
  next
    case (Some nb')
    show ?thesis
    proof (cases "node g go' ''name''")
      case None
      with c Some show ?thesis by simp
    next
      case des: (Some des)
      show ?thesis
      proof (cases "P_sim srd s' (min (length nb') N)")
        case (Inl e)
        with P_sim_error [OF assms(1), of s' "min (length nb') N"] have "e = KeyError"
          by (cases e) simp_all
        with c Some des Inl show ?thesis by simp
      next
        case (Inr p)
        have "(go, s) \<noteq> (go', s')"
        proof
          assume "(go, s) = (go', s')"
          with assms(3,4) Some have "P_sim srd s' (min (length nb') N) = Inl KeyError"
            by (simp add: P_sim_def)
          with Inr show False by simp
        qed
        with Cons.prems c have "(go, s) \<in> set simdf" by auto
        from Cons.IH [OF this] c Some des Inr show ?thesis by simp
      qed
    qed
  qed
qed

lemma node_rows_missing_bucket:
  assumes "node g n ''HGNC'' = Some h" "h \<in> set hgncid" "adj g n = Some nb"
    "nv n = Some ranking" "(go, s) \<in> set ranking" "go \<in> set nb \<inter> GO_nodes g"
    "adj g go = Some nbg" "srd (dist_key_of (min (length nbg) (length nb))) = None"
    "\<forall>k. srd k \<noteq> Some []"
  shows "node_rows g hgncid nv srd alpha_FDR n = Inl KeyError"
proof -
  have "(go, s) \<in> set (filter (\<lambda>(go, sim). go \<in> set nb \<inter> GO_nodes g) ranking)"
    using assms(5,6) by simp
  from candidate_loop_missing_bucket_anywhere [OF assms(9) this assms(7,8)]
  have "get_GO_df g nv srd n (length nb) alpha_FDR = Inl KeyError"
    using assms(3,4) by (simp add: get_GO_df_def)
  with assms(1,2,3) show ?thesis by (simp add: node_rows_def)
qed

lemma node_rows_no_ZeroDivisionError:
  assumes "\<forall>k. srd k \<noteq> Some []"
  shows "node_rows g hgncid nv srd alpha_FDR n \<noteq> Inl ZeroDivisionError"
proof -
  have loop: "candidate_loop g srd N simdf \<noteq> Inl ZeroDivisionError" for N simdf
  proof (induction simdf)
    case Nil
    show ?case by simp
  next
    case (Cons c simdf)
    obtain go s where c: "c = (go, s)" by (cases c)
    from Cons P_sim_error [OF assms, of s] show ?case
      by (auto simp: c Let_def split: option.splits sum.splits)
  qed
  have "get_GO_df g nv srd n N alpha_FDR \<noteq> Inl ZeroDivisionError" for N
    using loop by (auto simp: get_GO_df_def Let_def split: option.splits sum.splits)
  then show ?thesis
    by (auto simp: node_rows_def Let_def split: option.splits sum.splits)
qed

lemma node_loop_error:
  "node_loop g hgncid nv srd alpha_FDR ns = Inl e \<Longrightarrow> e = ZeroDivisionError"
proof (induction ns)
  case Nil
  then show ?case by simp
next
  case (Cons n ns)
  then show ?case by (cases e) (auto split: sum.splits error.splits)
qed

lemma node_loop_returns:
  assumes "\<forall>k. srd k \<noteq> Some []"
  shows "\<exists>rows. node_loop g hgncid nv srd alpha_FDR ns = Inr rows"
proof (induction ns)
  case Nil
  show ?case by simp
next
  case (Cons n ns)
  with node_rows_no_ZeroDivisionError [OF assms, of g hgncid nv alpha_FDR n] show ?case
    by (auto split: sum.splits error.splits)
qed

lemma node_rows_Symbol:
  "node_rows g hgncid nv srd alpha_FDR n = Inr rows \<Longrightarrow> \<forall>r\<in>set rows. Symbol r = n"
  by (auto simp: node_rows_def Let_def split: option.splits if_splits sum.splits)

lemma node_loop_Symbol:
  "node_loop g hgncid nv srd alpha_FDR ns = Inr rows \<Longrightarrow> \<forall>r\<in>set rows. Symbol r \<in> set ns"
proof (induction ns arbitrary: rows)
  case Nil
  then show ?case by simp
next
  case (Cons n ns)
  show ?case
  proof (cases "node_rows g hgncid nv srd alpha_FDR n")
    case (Inl e)
    with Cons show ?thesis by (cases e) auto
  next
    case (Inr rows1)
    with Cons.prems obtain rest where rest: "node_loop g hgncid nv srd alpha_FDR ns = Inr rest"
      "rows = rows1 @ rest" by (auto split: sum.splits)
    from node_rows_Symbol [OF Inr] Cons.IH [OF rest(1)] rest(2) show ?thesis by auto
  qed
qed

lemma replicate_table_skip:
  assumes "node_rows g hgncid nv srd alpha_FDR n = Inl KeyError" "nodes g = ns1 @ n # ns2"
  shows "replicate_table g hgncid nv srd alpha_FDR =
           (case node_loop g hgncid nv srd alpha_FDR (ns1 @ ns2) of
              Inl e \<Rightarrow> Inl e
            | Inr rows \<Rightarrow> Inr (sort_key (rep_sort_key hgncid) rows))"
    and "n \<notin> set ns1 \<union> set ns2 \<Longrightarrow> replicate_table g hgncid nv srd alpha_FDR = Inr t \<Longrightarrow>
         \<forall>r\<in>set t. Symbol r \<noteq> n"
proof -
  have eq: "node_loop g hgncid nv srd alpha_FDR (nodes g) =
            node_loop g hgncid nv srd alpha_FDR (ns1 @ ns2)"
    unfolding assms(2) using assms(1) by (intro node_loop_skip) simp
  then show tab: "replicate_table g hgncid nv srd alpha_FDR =
           (case node_loop g hgncid nv srd alpha_FDR (ns1 @ ns2) of
              Inl e \<Rightarrow> Inl e
            | Inr rows \<Rightarrow> Inr (sort_key (rep_sort_key hgncid) rows))"
    by (simp add: replicate_table_def)
  assume n: "n \<notin> set ns1 \<union> set ns2" and t: "replicate_table g hgncid nv srd alpha_FDR = Inr t"
  from t tab obtain rows where rows: "node_loop g hgncid nv srd alpha_FDR (ns1 @ ns2) = Inr rows"
    "t = sort_key (rep_sort_key hgncid) rows" by (auto split: sum.splits)
  from node_loop_Symbol [OF rows(1)] n rows(2) show "\<forall>r\<in>set t. Symbol r \<noteq> n" by auto
qed

lemma replicate_table_error:
  "replicate_table g hgncid nv srd alpha_FDR = Inl e \<Longrightarrow> e = ZeroDivisionError"
  using node_loop_error [of g hgncid nv srd alpha_FDR "nodes g" e]
  by (auto simp: replicate_table_def split: sum.splits)

lemma all_replicates_error:
  "all_replicates g hgncid nvs srd alpha_FDR = Inl e \<Longrightarrow> e = ZeroDivisionError"
proof (induction nvs)
  case Nil
  then show ?case by simp
next
  case (Cons nv nvs)
  then show ?case
    using replicate_table_error [of g hgncid nv srd alpha_FDR e]
    by (auto split: sum.splits)
qed

lemma all_replicates_Inr_iff:
  "all_replicates g hgncid nvs srd alpha_FDR = Inr tables \<longleftrightarrow>
     length tables = length nvs \<and>
     (\<forall>i<length nvs. replicate_table g hgncid (nvs ! i) srd alpha_FDR = Inr (tables ! i))"
proof (induction nvs arbitrary: tables)
  case Nil
  show ?case by auto
next
  case (Cons nv nvs)
  show ?case
  proof (cases tables)
    case Nil
    then show ?thesis by (auto split: sum.splits)
  next
    case (Cons t ts)
    have "(\<forall>i<Suc (length nvs). replicate_table g hgncid ((nv # nvs) ! i) srd alpha_FDR = Inr ((t # ts) ! i)) \<longleftrightarrow>
          replicate_table g hgncid nv srd alpha_FDR = Inr t \<and>
          (\<forall>i<length nvs. replicate_table g hgncid (nvs ! i) srd alpha_FDR = Inr (ts ! i))"
      by (auto simp: less_Suc_eq_0_disj)
    with Cons.IH [of ts] Cons show ?thesis
      by (auto split: sum.splits)
  qed
qed

lemma all_replicates_ZeroDivisionError:
  assumes "nv \<in> set nvs" "replicate_table g hgncid nv srd alpha_FDR = Inl ZeroDivisionError"
  shows "all_replicates g hgncid nvs srd alpha_FDR = Inl ZeroDivisionError"
  using assms(1)
proof (induction nvs)
  case Nil
  then show ?case by simp
next
  case (Cons nv' nvs)
  show ?case
  proof (cases "replicate_table g hgncid nv' srd alpha_FDR")
    case (Inl e)
    with replicate_table_error [OF Inl] show ?thesis by simp
  next
    case (Inr t)
    with Cons assms(2) have "nv \<in> set nvs" by auto
    from Cons.IH [OF this] Inr show ?thesis by simp
  qed
qed

lemma generate_output_KeyError:
  assumes "generate_output g hgncid nvs srd alpha_FDR = Inl KeyError"
  shows "nvs = []"
proof (cases "all_replicates g hgncid nvs srd alpha_FDR")
  case (Inl e)
  with all_replicates_error [OF Inl] assms show ?thesis
    by (simp add: generate_output_def merged_table_def)
next
  case (Inr tables)
  with assms have "tables = []"
    by (auto simp: generate_output_def merged_table_def split: list.splits)
  with Inr show ?thesis by (simp add: all_replicates_Inr_iff)
qed

lemma generate_output_returns:
  assumes "nvs \<noteq> []" "\<forall>k. srd k \<noteq> Some []"
  shows "\<exists>out. generate_output g hgncid nvs srd alpha_FDR = Inr out"
proof -
  have tab: "\<exists>t. replicate_table g hgncid nv srd alpha_FDR = Inr t" for nv
    using node_loop_returns [OF assms(2), of g hgncid nv alpha_FDR "nodes g"]
    by (auto simp: replicate_table_def)
  have "\<exists>tables. all_replicates g hgncid nvs srd alpha_FDR = Inr tables"
  proof (induction nvs)
    case Nil
    show ?case by simp
  next
    case (Cons nv nvs)
    with tab [of nv] show ?case by auto
  qed
  then obtain tables where tables: "all_replicates g hgncid nvs srd alpha_FDR = Inr tables" ..
  with assms(1) have "tables \<noteq> []" by (auto simp: all_replicates_Inr_iff)
  with tables show ?thesis
    by (auto simp: generate_output_def merged_table_def split: list.splits)
qed

lemma generate_output_ZeroDivisionError:
  assumes "nv \<in> set nvs" "n \<in> set (nodes g)"
    "node_rows g hgncid nv srd alpha_FDR n = Inl ZeroDivisionError"
  shows "generate_output g hgncid nvs srd alpha_FDR = Inl ZeroDivisionError"
proof -
  from assms(2) obtain ns1 ns2 where "nodes g = ns1 @ n # ns2" by (auto dest: split_list)
  with node_loop_ZeroDivisionError [OF assms(3), of ns1 ns2]
  have "replicate_table g hgncid nv srd alpha_FDR = Inl ZeroDivisionError"
    by (simp add: replicate_table_def)
  from all_replicates_ZeroDivisionError [OF assms(1) this] show ?thesis
    by (simp add: generate_output_def merged_table_def)
qed


lemma replicate_rows_in_output:
  assumes "generate_output g hgncid nvs srd alpha_FDR = Inr out"
    "all_replicates g hgncid nvs srd alpha_FDR = Inr tables" "i < length tables"
    "r \<in> set (tables ! i)"
  shows "ident_of r \<in> out_ident ` set out"
proof -
  from assms(1) obtain merged where merged: "merged_table g hgncid nvs srd alpha_FDR = Inr merged"
    and out: "out = sort_key (final_sort_key hgncid) (map (statistics (length nvs)) merged)"
    by (auto simp: generate_output_def Let_def split: sum.splits)
  from merged_table_agrees [OF merged] assms(2) have "merge_complete tables merged" by auto
  with assms(3,4) obtain m where m: "m \<in> set merged" "ident m = ident_of r"
    unfolding merge_complete_def by blast
  have "statistics (length nvs) m \<in> set out" using m(1) by (simp add: out)
  moreover have "out_ident (statistics (length nvs) m) = ident_of r"
    using m(2) by (simp add: statistics_def)
  ultimately show ?thesis by force
qed

text \<open>
  Claim C4, as amended. The source has no error of its own. A gene of interest outside
  the vocabulary of a replicate raises \<open>KeyError\<close>, and so does the scoring of a gene
  one of whose candidates needs a bucket without a sample, when no sample of the null
  distribution is empty (for degree 0 the key is \<open>'d-inf'\<close>, a missing key like any
  other). \<open>except KeyError: pass\<close> in the loop over the nodes catches it: the table of
  the replicate is the sorted rows of the other nodes, with no row of the gene; every
  replicate's table is computed by itself, the rows of all of them are in the final table,
  and \<open>generate_output\<close> raises \<open>KeyError\<close> only when there is no replicate at all. With
  at least one replicate and no empty sample the run returns a table. A
  \<open>ZeroDivisionError\<close> (an empty sample), raised for any node in any replicate, ends the
  whole run.
\<close>

theorem KeyError_skips_the_gene:
  "(node g n ''HGNC'' = Some h \<and> h \<in> set hgncid \<and> adj g n = Some nb \<and> nv n = None \<longrightarrow>
      node_rows g hgncid nv srd alpha_FDR n = Inl KeyError) \<and>
   (node g n ''HGNC'' = Some h \<and> h \<in> set hgncid \<and> adj g n = Some nb \<and>
    nv n = Some ranking \<and> (go, s) \<in> set ranking \<and> go \<in> set nb \<inter> GO_nodes g \<and>
    adj g go = Some nbg \<and> srd (dist_key_of (min (length nbg) (length nb))) = None \<and>
    (\<forall>k. srd k \<noteq> Some []) \<longrightarrow>
      node_rows g hgncid nv srd alpha_FDR n = Inl KeyError) \<and>
   (srd (dist_key_of N_con) = None \<longrightarrow> P_sim srd s' N_con = Inl KeyError) \<and>
   dist_key_of 0 = NegInf \<and>
   (node_rows g hgncid nv srd alpha_FDR n = Inl KeyError \<and> nodes g = earlier @ n # later \<longrightarrow>
      replicate_table g hgncid nv srd alpha_FDR =
        (case node_loop g hgncid nv srd alpha_FDR (earlier @ later) of
           Inl e \<Rightarrow> Inl e
         | Inr rows \<Rightarrow> Inr (sort_key (rep_sort_key hgncid) rows)) \<and>
      (n \<notin> set earlier \<union> set later \<longrightarrow>
         (\<forall>t. replicate_table g hgncid nv srd alpha_FDR = Inr t \<longrightarrow> (\<forall>r\<in>set t. Symbol r \<noteq> n)))) \<and>
   (all_replicates g hgncid nvs srd alpha_FDR = Inr tables \<longleftrightarrow>
      length tables = length nvs \<and>
      (\<forall>i<length nvs. replicate_table g hgncid (nvs ! i) srd alpha_FDR = Inr (tables ! i))) \<and>
   (generate_output g hgncid nvs srd alpha_FDR = Inr out \<and>
    all_replicates g hgncid nvs srd alpha_FDR = Inr tables \<longrightarrow>
      (\<forall>i<length tables. \<forall>r\<in>set (tables ! i). ident_of r \<in> out_ident ` set out)) \<and>
   (generate_output g hgncid nvs srd alpha_FDR = Inl KeyError \<longrightarrow> nvs = []) \<and>
   (nvs \<noteq> [] \<and> (\<forall>k. srd k \<noteq> Some []) \<longrightarrow>
      (\<exists>res. generate_output g hgncid nvs srd alpha_FDR = Inr res)) \<and>
   (nv' \<in> set nvs \<and> n' \<in> set (nodes g) \<and>
    node_rows g hgncid nv' srd alpha_FDR n' = Inl ZeroDivisionError \<longrightarrow>
      generate_output g hgncid nvs srd alpha_FDR = Inl ZeroDivisionError)"
proof (intro conjI impI)
  show "dist_key_of 0 = NegInf" by (simp add: dist_key_of_def)
next
  assume "node g n ''HGNC'' = Some h \<and> h \<in> set hgncid \<and> adj g n = Some nb \<and> nv n = None"
  then show "node_rows g hgncid nv srd alpha_FDR n = Inl KeyError"
    by (intro node_rows_not_in_vocabulary [where h = h and nb = nb]) simp_all
next
  assume "node g n ''HGNC'' = Some h \<and> h \<in> set hgncid \<and> adj g n = Some nb \<and>
    nv n = Some ranking \<and> (go, s) \<in> set ranking \<and> go \<in> set nb \<inter> GO_nodes g \<and>
    adj g go = Some nbg \<and> srd (dist_key_of (min (length nbg) (length nb))) = None \<and>
    (\<forall>k. srd k \<noteq> Some [])"
  then show "node_rows g hgncid nv srd alpha_FDR n = Inl KeyError"
    by (intro node_rows_missing_bucket [where h = h and nb = nb and ranking = ranking
          and go = go and s = s and nbg = nbg]) simp_all
next
  assume "srd (dist_key_of N_con) = None"
  then show "P_sim srd s' N_con = Inl KeyError" by (rule P_sim_missing_bucket)
next
  assume a: "node_rows g hgncid nv srd alpha_FDR n = Inl KeyError \<and> nodes g = earlier @ n # later"
  then show "replicate_table g hgncid nv srd alpha_FDR =
        (case node_loop g hgncid nv srd alpha_FDR (earlier @ later) of
           Inl e \<Rightarrow> Inl e
         | Inr rows \<Rightarrow> Inr (sort_key (rep_sort_key hgncid) rows))"
    by (intro replicate_table_skip(1) [where n = n]) simp_all
  assume "n \<notin> set earlier \<union> set later"
  with a show "\<forall>t. replicate_table g hgncid nv srd alpha_FDR = Inr t \<longrightarrow> (\<forall>r\<in>set t. Symbol r \<noteq> n)"
    using replicate_table_skip(2) [of g hgncid nv srd alpha_FDR n earlier later] by blast
next
  show "all_replicates g hgncid nvs srd alpha_FDR = Inr tables \<longleftrightarrow>
      length tables = length nvs \<and>
      (\<forall>i<length nvs. replicate_table g hgncid (nvs ! i) srd alpha_FDR = Inr (tables ! i))"
    by (rule all_replicates_Inr_iff)
next
  assume "generate_output g hgncid nvs srd alpha_FDR = Inr out \<and>
    all_replicates g hgncid nvs srd alpha_FDR = Inr tables"
  then show "\<forall>i<length tables. \<forall>r\<in>set (tables ! i). ident_of r \<in> out_ident ` set out"
    using replicate_rows_in_output [of g hgncid nvs srd alpha_FDR out tables] by blast
next
  assume "generate_output g hgncid nvs srd alpha_FDR = Inl KeyError"
  then show "nvs = []" by (rule generate_output_KeyError)
next
  assume "nvs \<noteq> [] \<and> (\<forall>k. srd k \<noteq> Some [])"
  then show "\<exists>res. generate_output g hgncid nvs srd alpha_FDR = Inr res"
    using generate_output_returns [of nvs srd g hgncid alpha_FDR] by blast
next
  assume "nv' \<in> set nvs \<and> n' \<in> set (nodes g) \<and>
    node_rows g hgncid nv' srd alpha_FDR n' = Inl ZeroDivisionError"
  then show "generate_output g hgncid nvs srd alpha_FDR = Inl ZeroDivisionError"
    using generate_output_ZeroDivisionError [of nv' nvs n' g hgncid srd alpha_FDR] by blast
qed


theorem KeyError_skips_the_gene_witness:
  "node_rows g0 [''H1'', ''H2''] (nv0(''G1'' := None)) srd0 1 ''G1'' = Inl KeyError \<and>
   replicate_table g0 [''H1'', ''H2''] (nv0(''G1'' := None)) srd0 1 =
     Inr [\<lparr>HGNC = ''H2'', Symbol = ''G2'', N_con_gene = 2,
            GOdf = \<lparr>GO_description = ''alpha'', GO_ID = ''GO:1'', N_con_GO = 2,
                     similarity = 3/5, pval = 1/4, padj = 1/4\<rparr>\<rparr>] \<and>
   Symbol \<lparr>HGNC = ''H2'', Symbol = ''G2'', N_con_gene = 2,
            GOdf = \<lparr>GO_description = ''alpha'', GO_ID = ''GO:1'', N_con_GO = 2,
                     similarity = 3/5, pval = 1/4, padj = 1/4\<rparr>\<rparr> \<noteq> ''G1'' \<and>
   (\<exists>res. generate_output g0 [''H1'', ''H2''] [nv0(''G1'' := None), nv0] srd0 1 = Inr res) \<and>
   node_rows g0 [''H1'', ''H2''] nv0 (srd0(Bucket 0 := None)) 1 ''G1'' = Inl KeyError \<and>
   P_sim srd0 (1/2) 0 = Inl KeyError \<and>
   generate_output g0 [''H1'', ''H2''] [nv0] (srd0(Bucket 1 \<mapsto> [])) 1 = Inl ZeroDivisionError"
proof -
  note first = KeyError_skips_the_gene [where g = g0 and hgncid = "[''H1'', ''H2'']"
      and nv = "nv0(''G1'' := None)" and srd = srd0 and alpha_FDR = 1 and n = "''G1''"
      and h = "''H1''" and nb = "[''GO:1'', ''GO:2'']" and earlier = "[]"
      and later = "[''G2'', ''G3'', ''GO:1'', ''GO:2'']" and nvs = "[nv0(''G1'' := None), nv0]"
      and N_con = 0 and s' = "1/2"]
  note second = KeyError_skips_the_gene [where g = g0 and hgncid = "[''H1'', ''H2'']"
      and nv = nv0 and srd = "srd0(Bucket 0 := None)" and alpha_FDR = 1 and n = "''G1''"
      and h = "''H1''" and nb = "[''GO:1'', ''GO:2'']"
      and ranking = "[(''GO:1'', 3/5), (''G2'', 1/2), (''GO:2'', 3/10), (''G3'', 1/10)]"
      and go = "''GO:2''" and s = "3/10" and nbg = "[''G1'']"]
  note third = KeyError_skips_the_gene [where g = g0 and hgncid = "[''H1'', ''H2'']"
      and srd = "srd0(Bucket 1 \<mapsto> [])" and alpha_FDR = 1 and nvs = "[nv0]" and nv' = nv0
      and n' = "''G1''"]
  have h1: "node g0 ''G1'' ''HGNC'' = Some ''H1'' \<and> ''H1'' \<in> set [''H1'', ''H2''] \<and>
            adj g0 ''G1'' = Some [''GO:1'', ''GO:2''] \<and> (nv0(''G1'' := None)) ''G1'' = None"
    by (simp add: example_defs)
  note c1 = first [THEN conjunct1, THEN mp, OF h1]
  have h5: "node_rows g0 [''H1'', ''H2''] (nv0(''G1'' := None)) srd0 1 ''G1'' = Inl KeyError \<and>
            nodes g0 = [] @ ''G1'' # [''G2'', ''G3'', ''GO:1'', ''GO:2'']"
    using c1 by (simp add: g0_def)
  have h5': "''G1'' \<notin> set [] \<union> set [''G2'', ''G3'', ''GO:1'', ''GO:2'']" by simp
  note c5 = first [THEN conjunct2, THEN conjunct2, THEN conjunct2, THEN conjunct2,
      THEN conjunct1, THEN mp, OF h5, THEN conjunct2, THEN mp, OF h5']
  have h9: "[nv0(''G1'' := None), nv0] \<noteq> [] \<and> (\<forall>k. srd0 k \<noteq> Some [])"
    by (simp add: srd0_def)
  note c9 = first [THEN conjunct2, THEN conjunct2, THEN conjunct2, THEN conjunct2,
      THEN conjunct2, THEN conjunct2, THEN conjunct2, THEN conjunct2, THEN conjunct1,
      THEN mp, OF h9]
  have h3: "srd0 (dist_key_of 0) = None" by (simp add: srd0_def dist_key_of_def)
  note c3 = first [THEN conjunct2, THEN conjunct2, THEN conjunct1, THEN mp, OF h3]
  have h2: "node g0 ''G1'' ''HGNC'' = Some ''H1'' \<and> ''H1'' \<in> set [''H1'', ''H2''] \<and>
      adj g0 ''G1'' = Some [''GO:1'', ''GO:2''] \<and>
      nv0 ''G1'' = Some [(''GO:1'', 3/5), (''G2'', 1/2), (''GO:2'', 3/10), (''G3'', 1/10)] \<and>
      (''GO:2'', 3/10) \<in> set [(''GO:1'', 3/5), (''G2'', 1/2), (''GO:2'', 3/10), (''G3'', 1/10)] \<and>
      ''GO:2'' \<in> set [''GO:1'', ''GO:2''] \<inter> GO_nodes g0 \<and> adj g0 ''GO:2'' = Some [''G1''] \<and>
      (srd0(Bucket 0 := None)) (dist_key_of (min (length [''G1'']) (length [''GO:1'', ''GO:2'']))) = None \<and>
      (\<forall>k. (srd0(Bucket 0 := None)) k \<noteq> Some [])"
    by (simp add: example_defs GO_nodes_def dist_key_of_def)
  note c2 = second [THEN conjunct2, THEN conjunct1, THEN mp, OF h2]
  have h10: "nv0 \<in> set [nv0] \<and> ''G1'' \<in> set (nodes g0) \<and>
      node_rows g0 [''H1'', ''H2''] nv0 (srd0(Bucket 1 \<mapsto> [])) 1 ''G1'' = Inl ZeroDivisionError"
    by (simp add: example_defs eval_defs)
  note c10 = third [THEN conjunct2, THEN conjunct2, THEN conjunct2, THEN conjunct2,
      THEN conjunct2, THEN conjunct2, THEN conjunct2, THEN conjunct2, THEN conjunct2,
      THEN mp, OF h10]
  have e: "replicate_table g0 [''H1'', ''H2''] (nv0(''G1'' := None)) srd0 1 =
     Inr [\<lparr>HGNC = ''H2'', Symbol = ''G2'', N_con_gene = 2,
            GOdf = \<lparr>GO_description = ''alpha'', GO_ID = ''GO:1'', N_con_GO = 2,
                     similarity = 3/5, pval = 1/4, padj = 1/4\<rparr>\<rparr>]"
    by (simp add: example_defs eval_defs)
  from c5 [THEN spec, THEN mp, OF e]
  have c5': "Symbol \<lparr>HGNC = ''H2'', Symbol = ''G2'', N_con_gene = 2,
            GOdf = \<lparr>GO_description = ''alpha'', GO_ID = ''GO:1'', N_con_GO = 2,
                     similarity = 3/5, pval = 1/4, padj = 1/4\<rparr>\<rparr> \<noteq> ''G1''"
    by simp
  from c1 e c5' c9 c2 c3 c10 show ?thesis by (intro conjI)
qed

text \<open>
  The claim as stated fails: with \<open>G1\<close> outside the vocabulary of the replicate, and with
  no sample for bucket 0, which the pair \<open>G1\<close>, \<open>GO:2\<close> needs, the run returns the
  table of \<open>G2\<close> alone; and degree 0 gives \<open>KeyError\<close> for the key \<open>'d-inf'\<close>.
\<close>

theorem fatal_errors_counterexample:
  "generate_output g0 [''H1'', ''H2''] [nv0(''G1'' := None)] srd0 1 =
     Inr [\<lparr>out_ident = (''H2'', ''G2'', ''alpha'', ''GO:1'', 2, 2),
           mean_sim = Some (3/5), sem_sim = None, mean_pval = Some (1/4), sem_pval = None,
           mean_padj = Some (1/4), sem_padj = None\<rparr>] \<and>
   generate_output g0 [''H1'', ''H2''] [nv0] (srd0(Bucket 0 := None)) 1 =
     Inr [\<lparr>out_ident = (''H2'', ''G2'', ''alpha'', ''GO:1'', 2, 2),
           mean_sim = Some (3/5), sem_sim = None, mean_pval = Some (1/4), sem_pval = None,
           mean_padj = Some (1/4), sem_padj = None\<rparr>] \<and>
   P_sim srd0 (1/2) 0 = Inl KeyError"
  by (simp add: example_defs eval_defs)

subsection \<open>Mean and standard error over the replicates\<close>

lemma present_map: "present (map (map_option f) xs) = map f (present xs)"
  by (induction xs rule: present.induct) simp_all

lemma present_all_None: "(\<forall>x\<in>set xs. x = None) \<Longrightarrow> present xs = []"
  by (induction xs rule: present.induct) simp_all

lemma present_only:
  assumes "i < length xs" "xs ! i = Some v" "\<forall>j<length xs. j \<noteq> i \<longrightarrow> xs ! j = None"
  shows "present xs = [v]"
proof -
  have "\<forall>x\<in>set (take i xs). x = None"
    using assms(1,3) by (auto simp: in_set_conv_nth)
  moreover have "\<forall>x\<in>set (drop (Suc i) xs). x = None"
    using assms(1,3) by (auto simp: in_set_conv_nth)
  moreover have "xs = take i xs @ xs ! i # drop (Suc i) xs"
    using assms(1) by (rule id_take_nth_drop)
  ultimately show ?thesis
    using assms(2) by (metis present_all_None present_append present.simps(3) append_Nil append_Nil2)
qed

lemma row_agrees_single:
  assumes agr: "row_agrees tables m" and i: "i < length tables"
    and only: "\<forall>j<length tables. j \<noteq> i \<longrightarrow> ident m \<notin> ident_of ` set (tables ! j)"
  shows "\<exists>r\<in>set (tables ! i). ident_of r = ident m \<and> present (reps m) = [values_of r]"
proof -
  from agr have len: "length (reps m) = length tables" and pr: "present (reps m) \<noteq> []"
    and some: "\<And>j v. j < length tables \<Longrightarrow> reps m ! j = Some v \<Longrightarrow>
        \<exists>r\<in>set (tables ! j). ident_of r = ident m \<and> values_of r = v"
    unfolding row_agrees_def by blast+
  have others: "reps m ! j = None" if "j < length tables" "j \<noteq> i" for j
  proof (cases "reps m ! j")
    case None
    then show ?thesis .
  next
    case (Some v)
    from some [OF that(1) Some] only that show ?thesis by force
  qed
  have "reps m ! i \<noteq> None"
  proof
    assume "reps m ! i = None"
    with others len have "\<forall>x\<in>set (reps m). x = None"
      by (metis in_set_conv_nth)
    then have "present (reps m) = []" by (rule present_all_None)
    with pr show False by simp
  qed
  then obtain v where v: "reps m ! i = Some v" by auto
  from some [OF i v] obtain r where r: "r \<in> set (tables ! i)" "ident_of r = ident m"
      "values_of r = v" by blast
  have "present (reps m) = [v]"
    using i len v others by (intro present_only [of i]) simp_all
  with r show ?thesis by auto
qed

lemma statistics_single:
  assumes "present (reps m) = [(s, p, q)]"
  shows "mean_sim (statistics N m) = Some s" "mean_pval (statistics N m) = Some p"
    "mean_padj (statistics N m) = Some q" "sem_sim (statistics N m) = None"
    "sem_pval (statistics N m) = None" "sem_padj (statistics N m) = None"
    "out_ident (statistics N m) = ident m"
  using assms
  by (simp_all add: statistics_def sim_columns_def pval_columns_def padj_columns_def
      present_map mean_skipna_def std_skipna_def sem_def)

text \<open>
  Claim C3. The mean columns are over the replicates in which the pair is present, and so
  is the standard deviation, but the \<open>sem\<close> columns divide it by \<open>sqrt(Nreps)\<close>, not by
  the square root of the number of replicates present. With three replicates and
  \<open>alpha_FDR = 3/5\<close> the pair \<open>G2\<close>, \<open>GO:1\<close> is in the tables of the first two replicates
  only (similarities \<open>3/5\<close> and \<open>2/5\<close>, standard deviation \<open>sqrt (1/50)\<close>): \<open>sem:sim\<close> is
  \<open>sqrt (1/50) / sqrt 3\<close>, where the claim has \<open>sqrt (1/50) / sqrt 2\<close>.
\<close>

theorem sem_divisor_three_replicates:
  "generate_output g0 [''H2''] [nv_of 0 0 (3/5), nv_of 0 0 (2/5), nv_of 0 0 0] srd0 (3/5) =
   Inr [\<lparr>out_ident = (''H2'', ''G2'', ''alpha'', ''GO:1'', 2, 2),
         mean_sim = Some (1/2), sem_sim = Some (sqrt (1/50) / sqrt 3),
         mean_pval = Some (3/8), sem_pval = Some (sqrt (1/32) / sqrt 3),
         mean_padj = Some (3/8), sem_padj = Some (sqrt (1/32) / sqrt 3)\<rparr>] \<and>
   all_replicates g0 [''H2''] [nv_of 0 0 (3/5), nv_of 0 0 (2/5), nv_of 0 0 0] srd0 (3/5) =
   Inr [[\<lparr>HGNC = ''H2'', Symbol = ''G2'', N_con_gene = 2,
           GOdf = \<lparr>GO_description = ''alpha'', GO_ID = ''GO:1'', N_con_GO = 2,
                    similarity = 3/5, pval = 1/4, padj = 1/4\<rparr>\<rparr>],
        [\<lparr>HGNC = ''H2'', Symbol = ''G2'', N_con_gene = 2,
           GOdf = \<lparr>GO_description = ''alpha'', GO_ID = ''GO:1'', N_con_GO = 2,
                    similarity = 2/5, pval = 1/2, padj = 1/2\<rparr>\<rparr>],
        []] \<and>
   sqrt (1/50) / sqrt 3 \<noteq> sqrt (1/50) / sqrt 2"
  by (simp add: example_defs eval_defs power2_eq_square)

text \<open>
  Claim C10. A row of the final table whose identity columns are in the table of one
  replicate only has the values of that replicate's row in its mean columns and missing
  values in its three \<open>sem\<close> columns. (Every row of every replicate's table has its
  identity columns in the final table.)
\<close>

theorem pair_in_one_replicate:
  assumes "generate_output g hgncid nvs srd alpha_FDR = Inr out"
  shows "\<exists>tables. all_replicates g hgncid nvs srd alpha_FDR = Inr tables \<and>
           length tables = length nvs \<and>
           (\<forall>i<length tables. \<forall>r\<in>set (tables ! i). ident_of r \<in> out_ident ` set out) \<and>
           (\<forall>orow\<in>set out. \<forall>i<length tables.
              (\<forall>j<length tables. j \<noteq> i \<longrightarrow> out_ident orow \<notin> ident_of ` set (tables ! j)) \<longrightarrow>
              (\<exists>r\<in>set (tables ! i). ident_of r = out_ident orow \<and>
                 mean_sim orow = Some (similarity (GOdf r)) \<and> sem_sim orow = None \<and>
                 mean_pval orow = Some (pval (GOdf r)) \<and> sem_pval orow = None \<and>
                 mean_padj orow = Some (padj (GOdf r)) \<and> sem_padj orow = None))"
proof -
  from assms obtain merged where merged: "merged_table g hgncid nvs srd alpha_FDR = Inr merged"
    and out: "out = sort_key (final_sort_key hgncid) (map (statistics (length nvs)) merged)"
    by (auto simp: generate_output_def Let_def split: sum.splits)
  from merged_table_agrees [OF merged] obtain tables where
    tabs: "all_replicates g hgncid nvs srd alpha_FDR = Inr tables" "length tables = length nvs"
    and agr: "\<forall>m\<in>set merged. row_agrees tables m" and com: "merge_complete tables merged"
    by blast
  have set_out: "set out = statistics (length nvs) ` set merged" using out by simp
  have all_in: "ident_of r \<in> out_ident ` set out" if "i < length tables" "r \<in> set (tables ! i)" for i r
  proof -
    from com that obtain m where "m \<in> set merged" "ident m = ident_of r"
      unfolding merge_complete_def by blast
    then have "statistics (length nvs) m \<in> set out"
      and "out_ident (statistics (length nvs) m) = ident_of r"
      unfolding set_out by (blast, simp add: statistics_def)
    then show ?thesis by force
  qed
  have single: "\<exists>r\<in>set (tables ! i). ident_of r = out_ident orow \<and>
                 mean_sim orow = Some (similarity (GOdf r)) \<and> sem_sim orow = None \<and>
                 mean_pval orow = Some (pval (GOdf r)) \<and> sem_pval orow = None \<and>
                 mean_padj orow = Some (padj (GOdf r)) \<and> sem_padj orow = None"
    if orow: "orow \<in> set out" and i: "i < length tables"
      and only: "\<forall>j<length tables. j \<noteq> i \<longrightarrow> out_ident orow \<notin> ident_of ` set (tables ! j)" for orow i
  proof -
    from orow obtain m where m: "m \<in> set merged" "orow = statistics (length nvs) m"
      by (auto simp: set_out)
    then have id: "out_ident orow = ident m" by (simp add: statistics_def)
    from agr m(1) have "row_agrees tables m" by blast
    from row_agrees_single [OF this i] only id obtain r where
      r: "r \<in> set (tables ! i)" "ident_of r = ident m" "present (reps m) = [values_of r]"
      by auto
    from r(3) have "present (reps m) = [(similarity (GOdf r), pval (GOdf r), padj (GOdf r))]"
      by (simp add: values_of_def)
    from statistics_single [OF this, of "length nvs"] r(1,2) id m(2) show ?thesis by auto
  qed
  from tabs all_in single show ?thesis by blast
qed


theorem pair_in_one_replicate_witness:
  "generate_output g0 [''H2''] [nv_of 0 0 (3/5), nv_of 0 0 0] srd0 (1/2) =
     Inr [\<lparr>out_ident = (''H2'', ''G2'', ''alpha'', ''GO:1'', 2, 2),
           mean_sim = Some (3/5), sem_sim = None, mean_pval = Some (1/4), sem_pval = None,
           mean_padj = Some (1/4), sem_padj = None\<rparr>] \<and>
   (\<exists>tables. all_replicates g0 [''H2''] [nv_of 0 0 (3/5), nv_of 0 0 0] srd0 (1/2) = Inr tables \<and>
      length tables = length [nv_of 0 0 (3/5), nv_of 0 0 0] \<and>
      (\<forall>i<length tables. \<forall>r\<in>set (tables ! i). ident_of r \<in> out_ident `
          set [\<lparr>out_ident = (''H2'', ''G2'', ''alpha'', ''GO:1'', 2, 2),
           mean_sim = Some (3/5), sem_sim = None, mean_pval = Some (1/4), sem_pval = None,
           mean_padj = Some (1/4), sem_padj = None\<rparr>]) \<and>
      (\<forall>orow\<in>set [\<lparr>out_ident = (''H2'', ''G2'', ''alpha'', ''GO:1'', 2, 2),
           mean_sim = Some (3/5), sem_sim = None, mean_pval = Some (1/4), sem_pval = None,
           mean_padj = Some (1/4), sem_padj = None\<rparr>]. \<forall>i<length tables.
         (\<forall>j<length tables. j \<noteq> i \<longrightarrow> out_ident orow \<notin> ident_of ` set (tables ! j)) \<longrightarrow>
         (\<exists>r\<in>set (tables ! i). ident_of r = out_ident orow \<and>
            mean_sim orow = Some (similarity (GOdf r)) \<and> sem_sim orow = None \<and>
            mean_pval orow = Some (pval (GOdf r)) \<and> sem_pval orow = None \<and>
            mean_padj orow = Some (padj (GOdf r)) \<and> sem_padj orow = None)))"
proof -
  have e: "generate_output g0 [''H2''] [nv_of 0 0 (3/5), nv_of 0 0 0] srd0 (1/2) =
     Inr [\<lparr>out_ident = (''H2'', ''G2'', ''alpha'', ''GO:1'', 2, 2),
           mean_sim = Some (3/5), sem_sim = None, mean_pval = Some (1/4), sem_pval = None,
           mean_padj = Some (1/4), sem_padj = None\<rparr>]"
    by (simp add: example_defs eval_defs)
  show ?thesis using e pair_in_one_replicate [OF e] by (intro conjI)
qed

subsection \<open>The order of the final table\<close>

lemma set_unique [simp]: "set (unique xs) = set xs"
  by (induction xs rule: unique.induct) auto

lemma find_index_of_removeAll:
  "a \<noteq> x \<Longrightarrow> b \<noteq> x \<Longrightarrow>
   (find_index_of a (removeAll x ys) \<le> find_index_of b (removeAll x ys)) =
   (find_index_of a ys \<le> find_index_of b ys)"
  by (induction ys) auto

lemma find_index_of_unique:
  "(find_index_of a (unique xs) \<le> find_index_of b (unique xs)) =
   (find_index_of a xs \<le> find_index_of b xs)"
  by (induction xs rule: unique.induct) (auto simp: find_index_of_removeAll)

lemma find_index_of_inj:
  "a \<in> set xs \<Longrightarrow> find_index_of a xs = find_index_of b xs \<Longrightarrow> a = b"
  by (induction xs) (auto split: if_splits)

lemma cat_code_le:
  "(cat_code hgncid a \<le> cat_code hgncid b) = (find_index_of a hgncid \<le> find_index_of b hgncid)"
  by (simp add: cat_code_def find_index_of_unique)

lemma cat_code_inj:
  "a \<in> set hgncid \<Longrightarrow> cat_code hgncid a = cat_code hgncid b \<Longrightarrow> a = b"
  unfolding cat_code_def using find_index_of_inj [of a "unique hgncid" b] by simp

lemma node_rows_HGNC:
  "node_rows g hgncid nv srd alpha_FDR n = Inr rows \<Longrightarrow> \<forall>r\<in>set rows. HGNC r \<in> set hgncid"
  by (auto simp: node_rows_def Let_def split: option.splits if_splits sum.splits)

lemma node_loop_HGNC:
  "node_loop g hgncid nv srd alpha_FDR ns = Inr rows \<Longrightarrow> \<forall>r\<in>set rows. HGNC r \<in> set hgncid"
proof (induction ns arbitrary: rows)
  case Nil
  then show ?case by simp
next
  case (Cons n ns)
  show ?case
  proof (cases "node_rows g hgncid nv srd alpha_FDR n")
    case (Inl e)
    with Cons show ?thesis by (cases e) auto
  next
    case (Inr rows1)
    with Cons.prems obtain rest where rest: "node_loop g hgncid nv srd alpha_FDR ns = Inr rest"
      "rows = rows1 @ rest" by (auto split: sum.splits)
    from node_rows_HGNC [OF Inr] Cons.IH [OF rest(1)] rest(2) show ?thesis by auto
  qed
qed

lemma replicate_table_HGNC:
  "replicate_table g hgncid nv srd alpha_FDR = Inr t \<Longrightarrow> \<forall>r\<in>set t. HGNC r \<in> set hgncid"
  using node_loop_HGNC [of g hgncid nv srd alpha_FDR "nodes g"]
  by (auto simp: replicate_table_def split: sum.splits)

lemma all_replicates_HGNC:
  "all_replicates g hgncid nvs srd alpha_FDR = Inr tables \<Longrightarrow>
   \<forall>t\<in>set tables. \<forall>r\<in>set t. HGNC r \<in> set hgncid"
proof (induction nvs arbitrary: tables)
  case Nil
  then show ?case by simp
next
  case (Cons nv nvs)
  from Cons.prems obtain t ts where parts: "replicate_table g hgncid nv srd alpha_FDR = Inr t"
    "all_replicates g hgncid nvs srd alpha_FDR = Inr ts" "tables = t # ts"
    by (auto split: sum.splits)
  from replicate_table_HGNC [OF parts(1)] Cons.IH [OF parts(2)] parts(3) show ?case by simp
qed

lemma present_nonempty:
  assumes "present xs \<noteq> []"
  shows "\<exists>i<length xs. \<exists>v. xs ! i = Some v"
proof (rule ccontr)
  assume "\<not> ?thesis"
  then have "\<forall>x\<in>set xs. x = None" by (metis in_set_conv_nth not_None_eq)
  then have "present xs = []" by (rule present_all_None)
  with assms show False by simp
qed

lemma statistics_row:
  assumes agr: "row_agrees tables m" and tabs: "\<forall>t\<in>set tables. \<forall>r\<in>set t. HGNC r \<in> set hgncid"
  shows "out_HGNC (statistics N m) \<in> set hgncid" and "\<exists>a. mean_padj (statistics N m) = Some a"
proof -
  from agr have len: "length (reps m) = length tables" and pr: "present (reps m) \<noteq> []"
    and some: "\<And>j v. j < length tables \<Longrightarrow> reps m ! j = Some v \<Longrightarrow>
        \<exists>r\<in>set (tables ! j). ident_of r = ident m \<and> values_of r = v"
    unfolding row_agrees_def by blast+
  from present_nonempty [OF pr] len obtain i v where i: "i < length tables" "reps m ! i = Some v"
    by auto
  from some [OF i] obtain r where r: "r \<in> set (tables ! i)" "ident_of r = ident m" by blast
  from r(1) i(1) tabs have "HGNC r \<in> set hgncid" by (metis nth_mem)
  moreover have "out_HGNC (statistics N m) = HGNC r"
    using r(2) by (simp add: out_HGNC_def statistics_def ident_of_def [symmetric])
        (metis fst_conv ident_of_def)
  ultimately show "out_HGNC (statistics N m) \<in> set hgncid" by simp
  show "\<exists>a. mean_padj (statistics N m) = Some a"
    using pr by (simp add: statistics_def padj_columns_def mean_skipna_def present_map)
qed

lemma g0_output_H2_H1:
  "generate_output g0 [''H2'', ''H1''] [nv_of (3/5) (4/5) (3/5)] srd0 1 =
     Inr [\<lparr>out_ident = (''H2'', ''G2'', ''alpha'', ''GO:1'', 2, 2),
           mean_sim = Some (3/5), sem_sim = None, mean_pval = Some (1/4), sem_pval = None,
           mean_padj = Some (1/4), sem_padj = None\<rparr>,
          \<lparr>out_ident = (''H1'', ''G1'', ''beta'', ''GO:2'', 2, 1),
           mean_sim = Some (4/5), sem_sim = None, mean_pval = Some 0, sem_pval = None,
           mean_padj = Some 0, sem_padj = None\<rparr>,
          \<lparr>out_ident = (''H1'', ''G1'', ''alpha'', ''GO:1'', 2, 2),
           mean_sim = Some (3/5), sem_sim = None, mean_pval = Some (1/4), sem_pval = None,
           mean_padj = Some (1/4), sem_padj = None\<rparr>]"
  by (simp add: example_defs eval_defs)

text \<open>
  Claim C6. The final table is sorted by the position of the gene identifier in the input
  list (its first occurrence there), then by the mean q-value, then by the GO description:
  of two rows, the earlier one has the gene that comes first in the input list (or the
  same gene); the rows of one gene are contiguous; and within a gene the earlier row has the
  smaller mean q-value or, with equal mean q-values, the GO description that is not
  greater. Every row has a gene of the input list and a mean q-value.
\<close>

theorem output_follows_input_order:
  assumes "generate_output g hgncid nvs srd alpha_FDR = Inr out" and "i < j" and "j < length out"
  shows "out_HGNC (out ! i) \<in> set hgncid \<and> out_HGNC (out ! j) \<in> set hgncid \<and>
         find_index_of (out_HGNC (out ! i)) hgncid \<le> find_index_of (out_HGNC (out ! j)) hgncid \<and>
         (\<forall>k. j < k \<and> k < length out \<and> out_HGNC (out ! k) = out_HGNC (out ! i) \<longrightarrow>
              out_HGNC (out ! j) = out_HGNC (out ! i)) \<and>
         (out_HGNC (out ! i) = out_HGNC (out ! j) \<longrightarrow>
            (\<exists>a b. mean_padj (out ! i) = Some a \<and> mean_padj (out ! j) = Some b \<and> a \<le> b \<and>
               (a = b \<longrightarrow> out_GO_description (out ! i) \<le> out_GO_description (out ! j))))"
proof -
  from assms(1) obtain merged where merged: "merged_table g hgncid nvs srd alpha_FDR = Inr merged"
    and out: "out = sort_key (final_sort_key hgncid) (map (statistics (length nvs)) merged)"
    by (auto simp: generate_output_def Let_def split: sum.splits)
  from merged_table_agrees [OF merged] obtain tables where
    tabs: "all_replicates g hgncid nvs srd alpha_FDR = Inr tables"
    and agr: "\<forall>m\<in>set merged. row_agrees tables m" by blast
  note hg = all_replicates_HGNC [OF tabs]
  have row: "out_HGNC (out ! k) \<in> set hgncid \<and> (\<exists>a. mean_padj (out ! k) = Some a)"
    if "k < length out" for k
  proof -
    from that have "out ! k \<in> set out" by simp
    then obtain m where "m \<in> set merged" "out ! k = statistics (length nvs) m"
      by (auto simp: out)
    with agr statistics_row [OF _ hg, of m "length nvs"] show ?thesis by auto
  qed
  have srt: "sorted (map (final_sort_key hgncid) out)" by (simp add: out)
  have le: "final_sort_key hgncid (out ! a) \<le> final_sort_key hgncid (out ! b)"
    if "a \<le> b" "b < length out" for a b
    using sorted_nth_mono [OF srt, of a b] that by simp
  have cat_le: "cat_code hgncid (out_HGNC (out ! a)) \<le> cat_code hgncid (out_HGNC (out ! b))"
    if "a \<le> b" "b < length out" for a b
    using le [OF that] by (auto simp: final_sort_key_def less_eq_prod_def)
  have ij: "i < length out" "i \<le> j" using assms(2,3) by simp_all
  have c1: "find_index_of (out_HGNC (out ! i)) hgncid \<le> find_index_of (out_HGNC (out ! j)) hgncid"
    using cat_le [OF ij(2) assms(3)] by (simp add: cat_code_le)
  have c2: "out_HGNC (out ! j) = out_HGNC (out ! i)"
    if "j < k \<and> k < length out \<and> out_HGNC (out ! k) = out_HGNC (out ! i)" for k
  proof -
    have "cat_code hgncid (out_HGNC (out ! j)) \<le> cat_code hgncid (out_HGNC (out ! k))"
      using that by (intro cat_le) simp_all
    with cat_le [OF ij(2) assms(3)] that
    have "cat_code hgncid (out_HGNC (out ! j)) = cat_code hgncid (out_HGNC (out ! i))" by simp
    with row [OF assms(3)] show ?thesis by (auto dest: cat_code_inj)
  qed
  have c3: "\<exists>a b. mean_padj (out ! i) = Some a \<and> mean_padj (out ! j) = Some b \<and> a \<le> b \<and>
               (a = b \<longrightarrow> out_GO_description (out ! i) \<le> out_GO_description (out ! j))"
    if same: "out_HGNC (out ! i) = out_HGNC (out ! j)"
  proof -
    from row [OF ij(1)] row [OF assms(3)] obtain a b where
      ab: "mean_padj (out ! i) = Some a" "mean_padj (out ! j) = Some b" by blast
    from le [OF ij(2) assms(3)] same ab
    have "a \<le> b \<and> (a = b \<longrightarrow> out_GO_description (out ! i) \<le> out_GO_description (out ! j))"
      by (auto simp: final_sort_key_def na_last_def less_eq_prod_def)
    with ab show ?thesis by blast
  qed
  from row [OF ij(1)] row [OF assms(3)] c1 c2 c3 show ?thesis by blast
qed


text \<open>
  With the input order \<open>[H2, H1]\<close> the row of \<open>H2\<close> comes before the rows of \<open>H1\<close>, and
  of the rows of \<open>H1\<close> the one with GO description \<open>beta\<close> and mean q-value 0 comes
  before the one with \<open>alpha\<close> and \<open>1/4\<close>.
\<close>

theorem output_follows_input_order_witness:
  "generate_output g0 [''H2'', ''H1''] [nv_of (3/5) (4/5) (3/5)] srd0 1 =
     Inr [\<lparr>out_ident = (''H2'', ''G2'', ''alpha'', ''GO:1'', 2, 2),
           mean_sim = Some (3/5), sem_sim = None, mean_pval = Some (1/4), sem_pval = None,
           mean_padj = Some (1/4), sem_padj = None\<rparr>,
          \<lparr>out_ident = (''H1'', ''G1'', ''beta'', ''GO:2'', 2, 1),
           mean_sim = Some (4/5), sem_sim = None, mean_pval = Some 0, sem_pval = None,
           mean_padj = Some 0, sem_padj = None\<rparr>,
          \<lparr>out_ident = (''H1'', ''G1'', ''alpha'', ''GO:1'', 2, 2),
           mean_sim = Some (3/5), sem_sim = None, mean_pval = Some (1/4), sem_pval = None,
           mean_padj = Some (1/4), sem_padj = None\<rparr>] \<and>
   (0::nat) < 1 \<and> (1::nat) < 2 \<and> (2::nat) < 3 \<and>
   ''H2'' \<in> set [''H2'', ''H1''] \<and> ''H1'' \<in> set [''H2'', ''H1''] \<and>
   find_index_of ''H2'' [''H2'', ''H1''] \<le> find_index_of ''H1'' [''H2'', ''H1''] \<and>
   (\<exists>a b. Some (0::real) = Some a \<and> Some (1/4 :: real) = Some b \<and> a \<le> b \<and>
       (a = b \<longrightarrow> ''beta'' \<le> ''alpha''))"
  using output_follows_input_order [OF g0_output_H2_H1, of 0 1]
    output_follows_input_order [OF g0_output_H2_H1, of 1 2] g0_output_H2_H1
  by (simp add: out_HGNC_def out_GO_description_def)

subsection \<open>The threshold and the replicates\<close>

lemma node_rows_filter:
  assumes "alpha_FDR < 1"
  shows "node_rows g hgncid nv srd alpha_FDR n =
     (case node_rows g hgncid nv srd 1 n of
        Inl e \<Rightarrow> Inl e
      | Inr rows \<Rightarrow> Inr (filter (\<lambda>r. padj (GOdf r) < alpha_FDR) rows))"
  using assms
  by (simp add: node_rows_def Let_def get_GO_df_filter [of g nv srd n _ alpha_FDR]
      filter_map comp_def split: option.splits sum.splits)

lemma node_loop_filter:
  assumes "alpha_FDR < 1"
  shows "node_loop g hgncid nv srd alpha_FDR ns =
     (case node_loop g hgncid nv srd 1 ns of
        Inl e \<Rightarrow> Inl e
      | Inr rows \<Rightarrow> Inr (filter (\<lambda>r. padj (GOdf r) < alpha_FDR) rows))"
proof (induction ns)
  case Nil
  show ?case by simp
next
  case (Cons n ns)
  show ?case
  proof (cases "node_rows g hgncid nv srd 1 n")
    case (Inl e)
    with Cons node_rows_filter [OF assms, of g hgncid nv srd n] show ?thesis
      by (cases e) simp_all
  next
    case (Inr rows)
    with Cons node_rows_filter [OF assms, of g hgncid nv srd n] show ?thesis
      by (simp split: sum.splits)
  qed
qed

lemma replicate_table_filter:
  assumes "alpha_FDR < 1"
  shows "replicate_table g hgncid nv srd alpha_FDR =
     (case replicate_table g hgncid nv srd 1 of
        Inl e \<Rightarrow> Inl e
      | Inr t \<Rightarrow> Inr (filter (\<lambda>r. padj (GOdf r) < alpha_FDR) t))"
  by (simp add: replicate_table_def node_loop_filter [OF assms, of g hgncid nv srd "nodes g"]
      filter_sort split: sum.splits)

lemma generate_output_single:
  "generate_output g hgncid [nv] srd alpha_FDR =
     (case replicate_table g hgncid nv srd alpha_FDR of
        Inl e \<Rightarrow> Inl e
      | Inr t \<Rightarrow> Inr (sort_key (final_sort_key hgncid)
          (map (\<lambda>r. statistics 1 \<lparr>ident = ident_of r, reps = [Some (values_of r)]\<rparr>) t)))"
  by (simp add: generate_output_def merged_table_def comp_def split: sum.splits)

lemma mean_padj_single:
  "mean_padj (statistics N \<lparr>ident = ident_of r, reps = [Some (values_of r)]\<rparr>) = Some (padj (GOdf r))"
  by (simp add: statistics_def padj_columns_def mean_skipna_def values_of_def)

text \<open>
  What the code does with the threshold: it acts on every replicate by itself, before the
  merge. For \<open>alpha_FDR < 1\<close> the table of a replicate is its table for \<open>alpha_FDR = 1\<close>
  restricted to the rows with \<open>q < alpha_FDR\<close>, and with a single replicate the final
  table is the final table for \<open>alpha_FDR = 1\<close> restricted to the rows whose mean q-value
  is below \<open>alpha_FDR\<close>.
\<close>

lemma threshold_acts_per_replicate:
  assumes "alpha_FDR < 1"
  shows "replicate_table g hgncid nv srd alpha_FDR =
           (case replicate_table g hgncid nv srd 1 of
              Inl e \<Rightarrow> Inl e
            | Inr table \<Rightarrow> Inr (filter (\<lambda>r. padj (GOdf r) < alpha_FDR) table)) \<and>
         generate_output g hgncid [nv] srd alpha_FDR =
           (case generate_output g hgncid [nv] srd 1 of
              Inl e \<Rightarrow> Inl e
            | Inr out \<Rightarrow>
                Inr (filter (\<lambda>row. case mean_padj row of None \<Rightarrow> False | Some q \<Rightarrow> q < alpha_FDR) out))"
proof -
  let ?P = "\<lambda>r. padj (GOdf r) < alpha_FDR"
  let ?Q = "\<lambda>row. case mean_padj row of None \<Rightarrow> False | Some q \<Rightarrow> q < alpha_FDR"
  have tab: "replicate_table g hgncid nv srd alpha_FDR =
           (case replicate_table g hgncid nv srd 1 of
              Inl e \<Rightarrow> Inl e | Inr table \<Rightarrow> Inr (filter ?P table))"
    using assms by (rule replicate_table_filter)
  have comm: "map (\<lambda>r. statistics N \<lparr>ident = ident_of r, reps = [Some (values_of r)]\<rparr>) (filter ?P t) =
      filter ?Q (map (\<lambda>r. statistics N \<lparr>ident = ident_of r, reps = [Some (values_of r)]\<rparr>) t)" for t N
    by (simp add: filter_map comp_def mean_padj_single)
  have "generate_output g hgncid [nv] srd alpha_FDR =
           (case generate_output g hgncid [nv] srd 1 of
              Inl e \<Rightarrow> Inl e | Inr out \<Rightarrow> Inr (filter ?Q out))"
    by (simp add: generate_output_single tab comm filter_sort split: sum.splits)
  with tab show ?thesis by simp
qed

text \<open>
  Claim C8. Running with \<open>alpha_FDR = 1\<close> and filtering the final rows at \<open>t\<close> should give
  the rows of running with \<open>alpha_FDR = t\<close>; the docstring of \<open>generate_output\<close> says that
  only GO terms with mean \<open>padj < alpha_FDR\<close> are output. The code does otherwise with two
  replicates that give the pair \<open>G2\<close>, \<open>GO:1\<close> the q-values \<open>1/4\<close> and \<open>1\<close>: the run with
  \<open>alpha_FDR = 1/2\<close> outputs the pair, with the values of the first replicate alone,
  while the run with \<open>alpha_FDR = 1\<close> gives it the mean q-value \<open>5/8\<close>, and filtering at
  \<open>1/2\<close> afterwards leaves no row.
\<close>

theorem two_replicates_threshold_evaluation:
  "generate_output g0 [''H2''] [nv_of 0 0 (3/5), nv_of 0 0 0] srd0 (1/2) =
     Inr [\<lparr>out_ident = (''H2'', ''G2'', ''alpha'', ''GO:1'', 2, 2),
           mean_sim = Some (3/5), sem_sim = None, mean_pval = Some (1/4), sem_pval = None,
           mean_padj = Some (1/4), sem_padj = None\<rparr>] \<and>
   map_sum id (map (\<lambda>row. (out_ident row, mean_padj row)))
       (generate_output g0 [''H2''] [nv_of 0 0 (3/5), nv_of 0 0 0] srd0 1) =
     Inr [((''H2'', ''G2'', ''alpha'', ''GO:1'', 2, 2), Some (5/8))] \<and>
   map_sum id (filter (\<lambda>row. case mean_padj row of None \<Rightarrow> False | Some q \<Rightarrow> q \<le> 1/2))
       (generate_output g0 [''H2''] [nv_of 0 0 (3/5), nv_of 0 0 0] srd0 1) = Inr [] \<and>
   all_replicates g0 [''H2''] [nv_of 0 0 (3/5), nv_of 0 0 0] srd0 1 =
     Inr [[\<lparr>HGNC = ''H2'', Symbol = ''G2'', N_con_gene = 2,
             GOdf = \<lparr>GO_description = ''alpha'', GO_ID = ''GO:1'', N_con_GO = 2,
                      similarity = 3/5, pval = 1/4, padj = 1/4\<rparr>\<rparr>],
          [\<lparr>HGNC = ''H2'', Symbol = ''G2'', N_con_gene = 2,
             GOdf = \<lparr>GO_description = ''alpha'', GO_ID = ''GO:1'', N_con_GO = 2,
                      similarity = 0, pval = 1, padj = 1\<rparr>\<rparr>]]"
  by (simp add: example_defs eval_defs)

end
